theory Spec2Isabelle
  imports Main
begin

section \<open>JavaScript values\<close>

text \<open>
  The values a prop can hold are the primitive values of the language. A number is kept
  by what the code below can observe of it: whether it is one of the three falsy numbers
  (\<open>+0\<close>, \<open>-0\<close>, \<open>NaN\<close>) and, for every other number, its rendering by
  \<open>Number::toString\<close> (so \<open>NonZero ''5''\<close> is the number 5 and
  \<open>NonZero ''Infinity''\<close> is infinity). A BigInt is kept the same way. A symbol carries
  its description. Strings are lists of characters; only characters of the ASCII range are
  ever inspected. An object is kept by what its conversion to a string comes to
  (\<open>ToPrimitive\<close> with the hint string, then \<open>ToString\<close>): the string, or the error
  raised, which is \<open>TypeError\<close> for an object with no usable \<open>toString\<close> or
  \<open>valueOf\<close> such as \<open>Object.create(null)\<close>, and \<open>Thrown\<close> for an object whose
  \<open>toString\<close> throws. The conversion of an object is taken to come to the same each time
  it is asked for and to change nothing.

  \<open>TypeError\<close> is what the language raises when a conversion or a call is impossible;
  \<open>Thrown\<close> is an exception raised by code that the modelled functions call.
\<close>

datatype error = TypeError | Thrown

datatype jsnumber = PosZero | NegZero | NaN | NonZero string

datatype jsbigint = BigZero | BigNonZero string

datatype jsval =
    JUndefined
  | JNull
  | JBool bool
  | JNumber jsnumber
  | JBigInt jsbigint
  | JString string
  | JSymbol string
  | JObject "error + string"

text \<open>\<open>ToBoolean\<close>: what \<open>value && ...\<close>, \<open>!x\<close> and \<open>x || y\<close> test.\<close>

fun truthy :: "jsval \<Rightarrow> bool" where
  "truthy JUndefined = False"
| "truthy JNull = False"
| "truthy (JBool b) = b"
| "truthy (JNumber n) = (case n of NonZero _ \<Rightarrow> True | _ \<Rightarrow> False)"
| "truthy (JBigInt n) = (case n of BigNonZero _ \<Rightarrow> True | BigZero \<Rightarrow> False)"
| "truthy (JString s) = (s \<noteq> [])"
| "truthy (JSymbol d) = True"
| "truthy (JObject c) = True"

definition js_or :: "jsval \<Rightarrow> jsval \<Rightarrow> jsval" where
  "js_or a b = (if truthy a then a else b)"

text \<open>
  \<open>ToString\<close>: the coercion applied by \<open>RegExp.prototype.test\<close> to its argument and
  by a template literal to each substitution. It raises \<open>TypeError\<close> on a symbol,
  and on an object whatever the conversion of the object raises.
\<close>

fun ToString :: "jsval \<Rightarrow> error + string" where
  "ToString JUndefined = Inr ''undefined''"
| "ToString JNull = Inr ''null''"
| "ToString (JBool b) = Inr (if b then ''true'' else ''false'')"
| "ToString (JNumber n) =
     Inr (case n of PosZero \<Rightarrow> ''0'' | NegZero \<Rightarrow> ''0'' | NaN \<Rightarrow> ''NaN'' | NonZero s \<Rightarrow> s)"
| "ToString (JBigInt n) = Inr (case n of BigZero \<Rightarrow> ''0'' | BigNonZero s \<Rightarrow> s)"
| "ToString (JString s) = Inr s"
| "ToString (JSymbol d) = Inl TypeError"
| "ToString (JObject c) = c"

section \<open>Regular expressions\<close>

text \<open>
  The fragment of the pattern language that the literal \<open>/^((ftp|http)s?:\/)?\//i\<close>
  uses: the assertion \<open>^\<close>, a literal character, sequence, alternative and \<open>?\<close>.
  A matcher state is the input still to be read together with whether the position is the
  start of the input. \<open>rmatch\<close> returns every state a match can end in, in the
  order a backtracking matcher tries them (\<open>?\<close> is greedy).
\<close>

datatype regex =
    Bol
  | Lit char
  | Seq regex regex
  | Alt regex regex
  | Opt regex

text \<open>
  Under the flag \<open>i\<close> two characters match when they canonicalize to the same
  character, which for the letters of the ASCII range is the upper-case letter. A character
  outside the ASCII range never canonicalizes to one inside it, so against the all-ASCII
  pattern below it is enough to leave such a character as it is.
\<close>

definition canonicalize :: "char \<Rightarrow> char" where
  "canonicalize c =
     (case map_of (zip ''abcdefghijklmnopqrstuvwxyz'' ''ABCDEFGHIJKLMNOPQRSTUVWXYZ'') c of
        Some u \<Rightarrow> u
      | None \<Rightarrow> c)"

fun rmatch :: "regex \<Rightarrow> bool \<times> string \<Rightarrow> (bool \<times> string) list" where
  "rmatch Bol (at_start, s) = (if at_start then [(at_start, s)] else [])"
| "rmatch (Lit c) (at_start, []) = []"
| "rmatch (Lit c) (at_start, x # xs) =
     (if canonicalize x = canonicalize c then [(False, xs)] else [])"
| "rmatch (Seq r1 r2) st = concat (map (rmatch r2) (rmatch r1 st))"
| "rmatch (Alt r1 r2) st = rmatch r1 st @ rmatch r2 st"
| "rmatch (Opt r) st = rmatch r st @ [st]"

text \<open>
  \<open>regex.test(str)\<close> for a pattern without the flags \<open>g\<close> and \<open>y\<close>: the
  match is tried at index 0, then at every later index.
\<close>

fun test_from :: "regex \<Rightarrow> bool \<Rightarrow> string \<Rightarrow> bool" where
  "test_from r at_start [] = (rmatch r (at_start, []) \<noteq> [])"
| "test_from r at_start (x # xs) = (rmatch r (at_start, x # xs) \<noteq> [] \<or> test_from r False xs)"

definition regex_test :: "regex \<Rightarrow> jsval \<Rightarrow> error + bool" where
  "regex_test r v = (case ToString v of Inl e \<Rightarrow> Inl e | Inr s \<Rightarrow> Inr (test_from r True s))"

section \<open>The URL field\<close>

text \<open>
  The props bag of the field. \<open>value_prop\<close> and \<open>text_prop\<close> are the props
  \<open>value\<close> and \<open>text\<close>; \<open>value\<close> comes with the standard field props, which
  are declared elsewhere and whose other entries are kept in \<open>standard\<close>.
\<close>

record props =
  value_prop :: jsval
  placeholder :: jsval
  text_prop :: jsval
  websitePath :: jsval
  standard :: "string \<rightharpoonup> jsval"

text \<open>
  A hook registered by \<open>setup\<close>: \<open>useInputField\<close> receives the function
  \<open>getValue\<close>, which reads the props of the component when the hook calls it.
\<close>

datatype hook = UseInputField "props \<Rightarrow> jsval"

record component =
  props :: props
  hooks :: "hook list"

definition setup_component :: "component \<Rightarrow> component" where
  "setup_component this =
     this\<lparr>hooks := hooks this @ [UseInputField (\<lambda>p. js_or (value_prop p) (JString ''''))]\<rparr>"

text \<open>The pattern \<open>/^((ftp|http)s?:\/)?\//i\<close>.\<close>

definition url_regex :: regex where
  "url_regex =
     Seq Bol
       (Seq (Opt (Seq (Alt (Seq (Lit CHR ''f'') (Seq (Lit CHR ''t'') (Lit CHR ''p'')))
                           (Seq (Lit CHR ''h'') (Seq (Lit CHR ''t'') (Seq (Lit CHR ''t'') (Lit CHR ''p'')))))
                      (Seq (Opt (Lit CHR ''s'')) (Seq (Lit CHR '':'') (Lit CHR ''/'')))))
            (Lit CHR ''/''))"

text \<open>
  The getter \<open>formattedHref\<close>, in state-passing style: it returns its result, or the
  error it raises, together with the component it leaves behind.
\<close>

definition formattedHref :: "component \<Rightarrow> (error + jsval) \<times> component" where
  "formattedHref this =
     (let v = value_prop (props this) in
      if truthy v \<and> \<not> truthy (websitePath (props this)) then
        (case regex_test url_regex v of
           Inl e \<Rightarrow> (Inl e, this)
         | Inr matched \<Rightarrow>
             if \<not> matched then
               (case ToString v of
                  Inl e \<Rightarrow> (Inl e, this)
                | Inr s \<Rightarrow> (Inr (JString (''http://'' @ s)), this))
             else (Inr v, this))
      else (Inr v, this))"

text \<open>
  What the comment beside the pattern lists: a string that begins, letter case ignored,
  with one of the given prefixes. \<open>strip_ci p s\<close> is what follows the prefix.
\<close>

definition starts_with_ci :: "string \<Rightarrow> string \<Rightarrow> bool" where
  "starts_with_ci p s = (map canonicalize (take (length p) s) = map canonicalize p)"

definition has_url_prefix :: "string \<Rightarrow> bool" where
  "has_url_prefix s =
     (starts_with_ci ''/'' s \<or> starts_with_ci ''http://'' s \<or> starts_with_ci ''https://'' s \<or>
      starts_with_ci ''ftp://'' s \<or> starts_with_ci ''ftps://'' s)"

fun strip_ci :: "string \<Rightarrow> string \<Rightarrow> string option" where
  "strip_ci [] s = Some s"
| "strip_ci (c # p) [] = None"
| "strip_ci (c # p) (x # xs) = (if canonicalize x = canonicalize c then strip_ci p xs else None)"

fun lits :: "char \<Rightarrow> string \<Rightarrow> regex" where
  "lits c [] = Lit c"
| "lits c (d # cs) = Seq (Lit c) (lits d cs)"

subsection \<open>The classes\<close>

text \<open>
  A class is the record of the members it declares itself, static and of its prototype,
  on top of the class it extends; a member is looked up along that chain. The base class
  \<open>Component\<close> belongs to the UI framework; its \<open>setup\<close> does nothing. The props
  declaration spreads \<open>standardFieldProps\<close>, which is declared elsewhere and is a
  parameter here.
\<close>

datatype prop_type = TString | TBoolean

record prop_decl =
  ptype :: "prop_type option"
  optional :: bool

record attrs =
  attr_text :: jsval
  attr_placeholder :: jsval
  attr_options :: "(string \<rightharpoonup> jsval) option"

record extracted =
  ex_text :: jsval
  ex_websitePath :: jsval
  ex_placeholder :: jsval

record members =
  template :: "string option"
  props_decl :: "(string \<times> prop_decl) list option"
  displayName :: "string option"
  supportedTypes :: "string list option"
  extractProps :: "(attrs \<Rightarrow> error + extracted) option"
  setup_method :: "(component \<Rightarrow> component) option"
  formattedHref_getter :: "(component \<Rightarrow> (error + jsval) \<times> component) option"

datatype cls = Base members | Extends cls members

fun own :: "cls \<Rightarrow> members" where
  "own (Base m) = m"
| "own (Extends c m) = m"

fun resolve :: "(members \<Rightarrow> 'a option) \<Rightarrow> cls \<Rightarrow> 'a option" where
  "resolve sel (Base m) = sel m"
| "resolve sel (Extends c m) = (case sel m of Some x \<Rightarrow> Some x | None \<Rightarrow> resolve sel c)"

definition no_members :: members where
  "no_members =
     \<lparr>template = None, props_decl = None, displayName = None, supportedTypes = None,
      extractProps = None, setup_method = None, formattedHref_getter = None\<rparr>"

definition Component :: cls where
  "Component = Base (no_members\<lparr>setup_method := Some (\<lambda>this. this)\<rparr>)"

definition UrlField_extractProps :: "attrs \<Rightarrow> error + extracted" where
  "UrlField_extractProps a =
     (case attr_options a of
        None \<Rightarrow> Inl TypeError
      | Some opts \<Rightarrow>
          Inr \<lparr>ex_text = attr_text a,
               ex_websitePath = (case opts ''website_path'' of None \<Rightarrow> JUndefined | Some v \<Rightarrow> v),
               ex_placeholder = attr_placeholder a\<rparr>)"

definition UrlField :: "(string \<times> prop_decl) list \<Rightarrow> cls" where
  "UrlField standardFieldProps =
     Extends Component
       \<lparr>template = Some ''web.UrlField'',
        props_decl = Some (standardFieldProps @
          [(''placeholder'', \<lparr>ptype = Some TString, optional = True\<rparr>),
           (''text'', \<lparr>ptype = Some TString, optional = True\<rparr>),
           (''websitePath'', \<lparr>ptype = Some TBoolean, optional = True\<rparr>)]),
        displayName = Some ''URL'',
        supportedTypes = Some [''char''],
        extractProps = Some UrlField_extractProps,
        setup_method = Some setup_component,
        formattedHref_getter = Some formattedHref\<rparr>"

definition FormUrlField :: "(string \<times> prop_decl) list \<Rightarrow> cls" where
  "FormUrlField standardFieldProps =
     Extends (UrlField standardFieldProps) (no_members\<lparr>template := Some ''web.FormUrlField''\<rparr>)"

definition fields_registry :: "(string \<times> prop_decl) list \<Rightarrow> (string \<times> cls) list" where
  "fields_registry standardFieldProps =
     [(''url'', UrlField standardFieldProps), (''form.url'', FormUrlField standardFieldProps)]"

section \<open>The DOM helpers\<close>

subsection \<open>Elements\<close>

text \<open>
  Nodes are named: \<open>Doc k\<close> is an element of the document the page came with,
  \<open>Created k\<close> the \<open>k\<close>-th element made by \<open>document.createElement\<close>. Of an
  element the helpers touch the class list (absent on an object that has no
  \<open>classList\<close>), the property \<open>disabled\<close> and the child nodes.
\<close>

datatype node = Doc nat | Created nat

record element =
  classList :: "string list option"
  disabled :: jsval
  childNodes :: "node list"

text \<open>
  A promise that the handled function can hand back is named by a number; all that is
  observed of it is whether it is still pending. An object that is no promise but has a
  method \<open>then\<close> counts as the promise that \<open>Promise.resolve\<close> makes of it.
  \<open>rvalue\<close> is what the handled function returns, \<open>outcome\<close> what a call of it
  does: it returns, or it throws.
\<close>

datatype pstate = Pending | Fulfilled | Rejected

datatype rvalue = Plain jsval | PromiseRef nat

datatype outcome = Returns rvalue | Throws

text \<open>
  The callbacks that the helpers hand to promises and timers, as data: \<open>_unlock\<close> of
  \<open>makeAsyncHandler\<close>; the function passed to \<open>then\<close> in \<open>makeButtonHandler\<close>,
  which has captured \<open>buttonEl\<close> and \<open>result\<close>; and the function returned by
  \<open>addButtonLoadingEffect\<close>, which has captured \<open>btnEl\<close> and \<open>loaderEl\<close>.
\<close>

datatype job = Unlock | Debounced node rvalue | Restore node node

record promise =
  pstate :: pstate
  reactions :: "job list"

text \<open>
  An event, by what a handler reads of it. The target is missing, or has no method
  \<open>closest\<close>, or \<open>closest('.btn')\<close> answers with an element of the document or with
  \<open>null\<close>.
\<close>

datatype target = NoTarget | NoClosest | Closest "nat option"

record event =
  target :: target
  defaultPrevented :: bool
  propagationStopped :: bool

text \<open>
  The arguments \<open>preventDefault\<close> and \<open>stopPropagation\<close> of \<open>makeAsyncHandler\<close>: a
  value that is no function (\<open>true\<close>, \<open>false\<close>, \<open>undefined\<close> when the argument is
  left out, or anything else), or a function. What the function does when it is called, the
  value it returns or the exception it throws, belongs to the call.
\<close>

datatype guard = Literal jsval | Function

text \<open>
  What one call of a handler gets from outside: the event, what the two guard functions
  do should they be called, and what the handled function \<open>fct\<close> does should it be
  called.
\<close>

record invocation =
  inv_event :: event
  inv_preventDefault :: "error + jsval"
  inv_stopPropagation :: "error + jsval"
  inv_fct :: outcome

text \<open>
  The state the helpers run in: the variable \<open>pending\<close> of the closure made by
  \<open>makeAsyncHandler\<close>; the calls of \<open>fct\<close> made so far, latest first (kept for the
  statements only); the promises; the microtask queue; the timers set by \<open>setTimeout\<close>,
  each with the time it is due and the callback that its promise then runs; the clock, in
  milliseconds; the elements; and the number of elements created.
\<close>

record world =
  pending :: bool
  calls :: "outcome list"
  promises :: "nat \<Rightarrow> promise"
  microtasks :: "job list"
  timers :: "(nat \<times> job) list"
  now :: nat
  elements :: "node \<Rightarrow> element"
  created :: nat

definition DEBOUNCE :: nat where
  "DEBOUNCE = 400"

subsection \<open>Class lists, nodes, promises\<close>

definition classList_add :: "string list \<Rightarrow> string list \<Rightarrow> string list" where
  "classList_add names cs = foldl (\<lambda>acc n. if n \<in> set acc then acc else acc @ [n]) cs names"

definition classList_remove :: "string list \<Rightarrow> string list \<Rightarrow> string list" where
  "classList_remove names cs = filter (\<lambda>c. c \<notin> set names) cs"

text \<open>\<open>if (el.classList) el.classList.add(...)\<close> and the same with \<open>remove\<close>.\<close>

definition add_classes :: "node \<Rightarrow> string list \<Rightarrow> world \<Rightarrow> world" where
  "add_classes el names w =
     (case classList (elements w el) of
        None \<Rightarrow> w
      | Some cs \<Rightarrow>
          w\<lparr>elements := (elements w)(el := (elements w el)\<lparr>classList := Some (classList_add names cs)\<rparr>)\<rparr>)"

definition remove_classes :: "node \<Rightarrow> string list \<Rightarrow> world \<Rightarrow> world" where
  "remove_classes el names w =
     (case classList (elements w el) of
        None \<Rightarrow> w
      | Some cs \<Rightarrow>
          w\<lparr>elements := (elements w)(el := (elements w el)\<lparr>classList := Some (classList_remove names cs)\<rparr>)\<rparr>)"

definition set_disabled :: "node \<Rightarrow> jsval \<Rightarrow> world \<Rightarrow> world" where
  "set_disabled el v w = w\<lparr>elements := (elements w)(el := (elements w el)\<lparr>disabled := v\<rparr>)\<rparr>"

definition createElement :: "world \<Rightarrow> node \<times> world" where
  "createElement w =
     (Created (created w),
      w\<lparr>elements := (elements w)
           (Created (created w) := \<lparr>classList = Some [], disabled = JUndefined, childNodes = []\<rparr>),
        created := Suc (created w)\<rparr>)"

text \<open>\<open>node.remove()\<close> takes the node out of the children of its parent.\<close>

definition remove_node :: "node \<Rightarrow> world \<Rightarrow> world" where
  "remove_node n w =
     w\<lparr>elements := (\<lambda>e. (elements w e)\<lparr>childNodes := removeAll n (childNodes (elements w e))\<rparr>)\<rparr>"

text \<open>\<open>el.prepend(n)\<close> moves the node to the front of the children of \<open>el\<close>.\<close>

definition prepend :: "node \<Rightarrow> node \<Rightarrow> world \<Rightarrow> world" where
  "prepend el n w =
     (let w1 = remove_node n w in
      w1\<lparr>elements := (elements w1)(el := (elements w1 el)\<lparr>childNodes := n # childNodes (elements w1 el)\<rparr>)\<rparr>)"

definition enqueue :: "job \<Rightarrow> world \<Rightarrow> world" where
  "enqueue j w = w\<lparr>microtasks := microtasks w @ [j]\<rparr>"

text \<open>
  \<open>Promise.resolve(result).finally(j)\<close>: a value that is no promise gives a promise
  already fulfilled, so the callback is queued as a microtask at once; a promise is taken
  as it is, and the callback is queued at once when it has settled and kept as a reaction
  while it is pending.
\<close>

definition promise_finally :: "rvalue \<Rightarrow> job \<Rightarrow> world \<Rightarrow> world" where
  "promise_finally result j w =
     (case result of
        Plain v \<Rightarrow> enqueue j w
      | PromiseRef p \<Rightarrow>
          if pstate (promises w p) = Pending then
            w\<lparr>promises := (promises w)(p := (promises w p)\<lparr>reactions := reactions (promises w p) @ [j]\<rparr>)\<rparr>
          else enqueue j w)"

text \<open>A pending promise is fulfilled or rejected: its reactions become microtasks.\<close>

definition settle :: "nat \<Rightarrow> pstate \<Rightarrow> world \<Rightarrow> world" where
  "settle p st w =
     (if pstate (promises w p) = Pending \<and> st \<noteq> Pending then
        w\<lparr>promises := (promises w)(p := \<lparr>pstate = st, reactions = []\<rparr>),
          microtasks := microtasks w @ reactions (promises w p)\<rparr>
      else w)"

subsection \<open>The helpers\<close>

text \<open>
  \<open>g === true || g && g()\<close>: whether the test holds, or the error it raises. A truthy
  value other than \<open>true\<close> that is no function cannot be called.
\<close>

definition guard_holds :: "guard \<Rightarrow> error + jsval \<Rightarrow> error + bool" where
  "guard_holds g answer =
     (case g of
        Literal v \<Rightarrow>
          if v = JBool True then Inr True
          else if truthy v then Inl TypeError
          else Inr False
      | Function \<Rightarrow> (case answer of Inl e \<Rightarrow> Inl e | Inr r \<Rightarrow> Inr (truthy r)))"

text \<open>The error that the two guards of a call raise, if one does; the first is asked first.\<close>

definition guard_error :: "guard \<Rightarrow> guard \<Rightarrow> invocation \<Rightarrow> error option" where
  "guard_error preventDefault stopPropagation call =
     (case guard_holds preventDefault (inv_preventDefault call) of
        Inl e \<Rightarrow> Some e
      | Inr b \<Rightarrow>
          (case guard_holds stopPropagation (inv_stopPropagation call) of
             Inl e \<Rightarrow> Some e
           | Inr b \<Rightarrow> None))"

text \<open>
  The handler returned by \<open>makeAsyncHandler(fct, preventDefault, stopPropagation)\<close>,
  called once. It returns what the call returns or the exception that leaves it, the
  event, and the state.
\<close>

definition makeAsyncHandler ::
  "guard \<Rightarrow> guard \<Rightarrow> invocation \<Rightarrow> world \<Rightarrow> (error + rvalue) \<times> event \<times> world" where
  "makeAsyncHandler preventDefault stopPropagation call w =
     (let ev0 = inv_event call in
      case guard_holds preventDefault (inv_preventDefault call) of
        Inl e \<Rightarrow> (Inl e, ev0, w)
      | Inr prevent \<Rightarrow>
          (let ev1 = (if prevent then ev0\<lparr>defaultPrevented := True\<rparr> else ev0) in
           case guard_holds stopPropagation (inv_stopPropagation call) of
             Inl e \<Rightarrow> (Inl e, ev1, w)
           | Inr stop \<Rightarrow>
               (let ev2 = (if stop then ev1\<lparr>propagationStopped := True\<rparr> else ev1) in
                if pending w then (Inr (Plain JUndefined), ev2, w)
                else
                  (let w1 = w\<lparr>pending := True\<rparr>;
                       w2 = w1\<lparr>calls := inv_fct call # calls w1\<rparr>
                   in case inv_fct call of
                        Throws \<Rightarrow> (Inl Thrown, ev2, w2)
                      | Returns result \<Rightarrow> (Inr result, ev2, promise_finally result Unlock w2)))))"

definition closest_btn :: "event \<Rightarrow> node option" where
  "closest_btn ev =
     (case target ev of
        NoTarget \<Rightarrow> None
      | NoClosest \<Rightarrow> None
      | Closest None \<Rightarrow> None
      | Closest (Some k) \<Rightarrow> Some (Doc k))"

text \<open>
  The handler returned by \<open>makeButtonHandler(fct)\<close>, called once. It makes its async
  handler with \<open>makeAsyncHandler(fct)\<close>, the two guards left out. The promise made
  around \<open>setTimeout\<close> is known to this call alone and has the one reaction given to
  \<open>then\<close>, so the timer is kept with that reaction.
\<close>

definition makeButtonHandler :: "invocation \<Rightarrow> world \<Rightarrow> (error + rvalue) \<times> event \<times> world" where
  "makeButtonHandler call w =
     (case makeAsyncHandler (Literal JUndefined) (Literal JUndefined) call w of
        (Inl e, ev, w1) \<Rightarrow> (Inl e, ev, w1)
      | (Inr result, ev, w1) \<Rightarrow>
          (case closest_btn ev of
             None \<Rightarrow> (Inr result, ev, w1)
           | Some buttonEl \<Rightarrow>
               (let w2 = add_classes buttonEl [''pe-none''] w1;
                    w3 = (if DEBOUNCE \<noteq> 0
                          then w2\<lparr>timers := timers w2 @ [(now w2 + DEBOUNCE, Debounced buttonEl result)]\<rparr>
                          else enqueue (Debounced buttonEl result) w2)
                in (Inr result, ev, w3))))"

definition addButtonLoadingEffect :: "node \<Rightarrow> world \<Rightarrow> job \<times> world" where
  "addButtonLoadingEffect btnEl w =
     (let w1 = add_classes btnEl [''o_website_btn_loading'', ''disabled''] w;
          w2 = set_disabled btnEl (JBool True) w1;
          (loaderEl, w3) = createElement w2;
          w4 = add_classes loaderEl [''fa'', ''fa-refresh'', ''fa-spin'', ''me-2''] w3;
          w5 = prepend btnEl loaderEl w4
      in (Restore btnEl loaderEl, w5))"

text \<open>Running a callback.\<close>

fun run_job :: "job \<Rightarrow> world \<Rightarrow> world" where
  "run_job Unlock w = w\<lparr>pending := False\<rparr>"
| "run_job (Debounced buttonEl result) w =
     (let w1 = remove_classes buttonEl [''pe-none''] w;
          (restore, w2) = addButtonLoadingEffect buttonEl w1
      in promise_finally result restore w2)"
| "run_job (Restore btnEl loaderEl) w =
     (let w1 = remove_classes btnEl [''o_website_btn_loading'', ''disabled''] w;
          w2 = set_disabled btnEl (JBool False) w1
      in remove_node loaderEl w2)"

subsection \<open>The microtask queue\<close>

text \<open>
  At a microtask checkpoint the queue is run until it is empty. A callback can queue at
  most one more callback, and only the debounce callback does, so the loop ends: the
  weight of the queue goes down with every callback run.
\<close>

fun job_weight :: "job \<Rightarrow> nat" where
  "job_weight (Debounced b r) = 2"
| "job_weight j = 1"

definition queue_weight :: "world \<Rightarrow> nat" where
  "queue_weight w = sum_list (map job_weight (microtasks w))"

lemma microtasks_add_classes [simp]: "microtasks (add_classes e ns w) = microtasks w"
  by (simp add: add_classes_def split: option.splits)

lemma microtasks_remove_classes [simp]: "microtasks (remove_classes e ns w) = microtasks w"
  by (simp add: remove_classes_def split: option.splits)

lemma microtasks_set_disabled [simp]: "microtasks (set_disabled e v w) = microtasks w"
  by (simp add: set_disabled_def)

lemma microtasks_remove_node [simp]: "microtasks (remove_node n w) = microtasks w"
  by (simp add: remove_node_def)

lemma microtasks_prepend [simp]: "microtasks (prepend e n w) = microtasks w"
  by (simp add: prepend_def Let_def)

lemma microtasks_createElement [simp]: "microtasks (snd (createElement w)) = microtasks w"
  by (simp add: createElement_def)

lemma addButtonLoadingEffect_unfold:
  "addButtonLoadingEffect b w =
     (Restore b (Created (created w)),
      prepend b (Created (created w))
        (add_classes (Created (created w)) [''fa'', ''fa-refresh'', ''fa-spin'', ''me-2'']
          (snd (createElement
            (set_disabled b (JBool True)
              (add_classes b [''o_website_btn_loading'', ''disabled''] w))))))"
proof -
  have c: "created (set_disabled b (JBool True)
             (add_classes b [''o_website_btn_loading'', ''disabled''] w)) = created w"
    by (simp add: set_disabled_def add_classes_def split: option.splits)
  show ?thesis
    unfolding addButtonLoadingEffect_def Let_def
    by (simp add: createElement_def c split: prod.splits)
qed

lemma microtasks_addButtonLoadingEffect [simp]:
  "microtasks (snd (addButtonLoadingEffect b w)) = microtasks w"
  by (simp add: addButtonLoadingEffect_unfold)

lemma microtasks_promise_finally:
  "microtasks (promise_finally r j w) = microtasks w \<or>
   microtasks (promise_finally r j w) = microtasks w @ [j]"
  by (simp add: promise_finally_def enqueue_def split: rvalue.splits)

lemma run_job_Debounced:
  "run_job (Debounced b r) w =
     promise_finally r (Restore b (Created (created w)))
       (snd (addButtonLoadingEffect b (remove_classes b [''pe-none''] w)))"
proof -
  have c: "created (remove_classes b [''pe-none''] w) = created w"
    by (simp add: remove_classes_def split: option.splits)
  show ?thesis
    by (simp add: Let_def addButtonLoadingEffect_unfold c)
qed

declare run_job.simps(2) [simp del]

lemma queue_weight_run_job: "queue_weight (run_job j w) < queue_weight w + job_weight j"
proof (cases j)
  case Unlock
  then show ?thesis by (simp add: queue_weight_def)
next
  case (Debounced b r)
  show ?thesis
    unfolding Debounced run_job_Debounced
    using microtasks_promise_finally [of r "Restore b (Created (created w))"
        "snd (addButtonLoadingEffect b (remove_classes b [''pe-none''] w))"]
    by (auto simp: queue_weight_def)
next
  case (Restore b l)
  then show ?thesis by (simp add: queue_weight_def Let_def)
qed

function drain :: "world \<Rightarrow> world" where
  "drain w =
     (case microtasks w of [] \<Rightarrow> w | j # js \<Rightarrow> drain (run_job j (w\<lparr>microtasks := js\<rparr>)))"
  by pat_completeness auto
termination
proof (relation "measure queue_weight")
  show "wf (measure queue_weight)" by simp
next
  fix w :: world and j js
  assume "microtasks w = j # js"
  then show "(run_job j (w\<lparr>microtasks := js\<rparr>), w) \<in> measure queue_weight"
    using queue_weight_run_job [of j "w\<lparr>microtasks := js\<rparr>"]
    by (simp add: queue_weight_def)
qed

declare drain.simps [simp del]

lemma drain_Nil: "microtasks w = [] \<Longrightarrow> drain w = w"
  by (subst drain.simps) simp

lemma drain_Cons:
  "microtasks w = j # js \<Longrightarrow> drain w = drain (run_job j (w\<lparr>microtasks := js\<rparr>))"
  by (subst drain.simps) simp

subsection \<open>The event loop\<close>

text \<open>
  What can happen next, one step at a time. A handler is called with an event (by the
  browser, or by a script that dispatches the event while other code is running); a
  promise is settled; the microtask checkpoint that ends a task runs the queue; a timer
  that is due fires, which runs its callback and the checkpoint after it; time passes.
  Steps may come in any order, which covers every order a browser can produce. What
  \<open>fct\<close> itself does to promises while it runs shows as steps of their own; nothing
  but the helpers changes the classes of an element.
\<close>

datatype task = Invoke invocation | Settle nat bool | Checkpoint | Timeout nat | Tick nat

datatype handler = AsyncHandler guard guard | ButtonHandler

text \<open>The error that the guards of a handler raise in a call, if one does.\<close>

definition handle_guard_error :: "handler \<Rightarrow> invocation \<Rightarrow> error option" where
  "handle_guard_error h call =
     (case h of
        AsyncHandler preventDefault stopPropagation \<Rightarrow>
          guard_error preventDefault stopPropagation call
      | ButtonHandler \<Rightarrow> None)"

definition handle :: "handler \<Rightarrow> invocation \<Rightarrow> world \<Rightarrow> (error + rvalue) \<times> event \<times> world" where
  "handle h call w =
     (case h of
        AsyncHandler preventDefault stopPropagation \<Rightarrow>
          makeAsyncHandler preventDefault stopPropagation call w
      | ButtonHandler \<Rightarrow> makeButtonHandler call w)"

definition fire :: "nat \<Rightarrow> world \<Rightarrow> world" where
  "fire k w =
     (if k < length (timers w) \<and> fst (timers w ! k) \<le> now w then
        drain (enqueue (snd (timers w ! k))
                 (w\<lparr>timers := take k (timers w) @ drop (Suc k) (timers w)\<rparr>))
      else w)"

fun step :: "handler \<Rightarrow> task \<Rightarrow> world \<Rightarrow> world" where
  "step h (Invoke call) w = snd (snd (handle h call w))"
| "step h (Settle p ok) w = settle p (if ok then Fulfilled else Rejected) w"
| "step h Checkpoint w = drain w"
| "step h (Timeout k) w = fire k w"
| "step h (Tick n) w = w\<lparr>now := now w + n\<rparr>"

definition run :: "handler \<Rightarrow> task list \<Rightarrow> world \<Rightarrow> world" where
  "run h ts w = foldl (\<lambda>w t. step h t w) w ts"

definition init :: "(node \<Rightarrow> element) \<Rightarrow> world" where
  "init els =
     \<lparr>pending = False, calls = [], promises = (\<lambda>p. \<lparr>pstate = Pending, reactions = []\<rparr>),
      microtasks = [], timers = [], now = 0, elements = els, created = 0\<rparr>"

inductive reachable :: "handler \<Rightarrow> world \<Rightarrow> bool" for h :: handler where
  reachable_init: "reachable h (init els)"
| reachable_step: "reachable h w \<Longrightarrow> reachable h (step h t w)"

text \<open>
  The action started by a call of \<open>fct\<close> has finished when the call threw or returned
  something that is no promise, or when the promise it returned has settled.
\<close>

fun finished :: "world \<Rightarrow> outcome \<Rightarrow> bool" where
  "finished w Throws = True"
| "finished w (Returns (Plain v)) = True"
| "finished w (Returns (PromiseRef p)) = (pstate (promises w p) \<noteq> Pending)"

definition unfinished :: "world \<Rightarrow> outcome list" where
  "unfinished w = filter (\<lambda>oc. \<not> finished w oc) (calls w)"

definition has_class :: "world \<Rightarrow> node \<Rightarrow> string \<Rightarrow> bool" where
  "has_class w el c = (case classList (elements w el) of None \<Rightarrow> False | Some cs \<Rightarrow> c \<in> set cs)"

text \<open>A page whose elements are enabled buttons without children, for concrete instances.\<close>

definition example_page :: "node \<Rightarrow> element" where
  "example_page n = \<lparr>classList = Some [''btn'', ''btn-primary''], disabled = JBool False, childNodes = []\<rparr>"

text \<open>A call of a handler with a click inside the first element of the document.\<close>

definition example_call :: "outcome \<Rightarrow> invocation" where
  "example_call oc =
     \<lparr>inv_event = \<lparr>target = Closest (Some 0), defaultPrevented = False, propagationStopped = False\<rparr>,
      inv_preventDefault = Inr JUndefined, inv_stopPropagation = Inr JUndefined, inv_fct = oc\<rparr>"

text \<open>A props bag with a given \<open>value\<close> and \<open>websitePath\<close>, for concrete instances.\<close>

definition example_props :: "jsval \<Rightarrow> jsval \<Rightarrow> props" where
  "example_props v w =
     \<lparr>value_prop = v, placeholder = JUndefined, text_prop = JUndefined, websitePath = w,
      standard = Map.empty\<rparr>"

section \<open>Properties of the URL field\<close>

subsection \<open>What the pattern matches\<close>

lemma starts_strip: "starts_with_ci p s = (strip_ci p s \<noteq> None)"
  by (induction p s rule: strip_ci.induct) (auto simp: starts_with_ci_def)

lemma strip_ci_append:
  "strip_ci (p @ q) s = (case strip_ci p s of None \<Rightarrow> None | Some t \<Rightarrow> strip_ci q t)"
  by (induction p s rule: strip_ci.induct) auto

lemma rmatch_lits_pair:
  "rmatch (lits c cs) (b, s) = (case strip_ci (c # cs) s of None \<Rightarrow> [] | Some t \<Rightarrow> [(False, t)])"
proof (induction c cs arbitrary: b s rule: lits.induct)
  case (1 c)
  then show ?case by (cases s) auto
next
  case (2 c d cs)
  then show ?case by (cases s) auto
qed

lemma rmatch_lits:
  "rmatch (lits c cs) st = (case strip_ci (c # cs) (snd st) of None \<Rightarrow> [] | Some t \<Rightarrow> [(False, t)])"
  by (cases st) (simp add: rmatch_lits_pair)

lemma url_regex_lits:
  "url_regex =
     Seq Bol
       (Seq (Opt (Seq (Alt (lits CHR ''f'' ''tp'') (lits CHR ''h'' ''ttp''))
                      (Seq (Opt (lits CHR ''s'' [])) (lits CHR '':'' ''/''))))
            (lits CHR ''/'' []))"
  by (simp add: url_regex_def)

lemma url_regex_needs_start: "rmatch url_regex (False, s) = []"
  by (simp add: url_regex_def)

lemma url_regex_not_later: "\<not> test_from url_regex False s"
  by (induction s) (simp_all add: url_regex_needs_start)

lemma url_regex_at_start: "(rmatch url_regex (True, s) \<noteq> []) = has_url_prefix s"
proof -
  have split_prefixes:
    "strip_ci ''http://'' s = strip_ci (''http'' @ '':/'' @ ''/'') s"
    "strip_ci ''https://'' s = strip_ci (''http'' @ ''s'' @ '':/'' @ ''/'') s"
    "strip_ci ''ftp://'' s = strip_ci (''ftp'' @ '':/'' @ ''/'') s"
    "strip_ci ''ftps://'' s = strip_ci (''ftp'' @ ''s'' @ '':/'' @ ''/'') s"
    by simp_all
  show ?thesis
    unfolding has_url_prefix_def starts_strip split_prefixes strip_ci_append url_regex_lits
    by (auto simp add: rmatch_lits simp del: lits.simps strip_ci.simps split: option.splits)
qed

lemma url_regex_test: "test_from url_regex True s = has_url_prefix s"
  by (cases s) (simp_all only: test_from.simps url_regex_at_start url_regex_not_later simp_thms)


subsection \<open>The getter\<close>

text \<open>
  Claim C2. With a truthy \<open>value\<close> and a \<open>websitePath\<close> that is not truthy: when
  the pattern test returns false the getter returns \<open>http://\<close> followed by the value
  (converted to a string, as the template literal does); when the test returns true it
  returns the value itself. The test on a string is true exactly when the string begins,
  letter case ignored, with \<open>/\<close>, \<open>http://\<close>, \<open>https://\<close>, \<open>ftp://\<close> or
  \<open>ftps://\<close>; and for a string value, malformed or not, the getter raises nothing.
\<close>

theorem formattedHref_prefix:
  assumes "truthy (value_prop (props this))" and "\<not> truthy (websitePath (props this))"
  shows "(regex_test url_regex (value_prop (props this)) = Inr False \<longrightarrow>
           (\<exists>s. ToString (value_prop (props this)) = Inr s \<and> \<not> has_url_prefix s \<and>
                fst (formattedHref this) = Inr (JString (''http://'' @ s)))) \<and>
         (regex_test url_regex (value_prop (props this)) = Inr True \<longrightarrow>
           (\<exists>s. ToString (value_prop (props this)) = Inr s \<and> has_url_prefix s) \<and>
           fst (formattedHref this) = Inr (value_prop (props this))) \<and>
         (\<forall>s. value_prop (props this) = JString s \<longrightarrow>
           regex_test url_regex (JString s) = Inr (has_url_prefix s) \<and>
           fst (formattedHref this) =
             Inr (if has_url_prefix s then JString s else JString (''http://'' @ s)))"
  using assms
  by (auto simp: formattedHref_def regex_test_def url_regex_test Let_def split: sum.splits)

theorem formattedHref_prefix_witness:
  "fst (formattedHref \<lparr>props = example_props (JString ''odoo.com'') JUndefined, hooks = []\<rparr>)
     = Inr (JString ''http://odoo.com'') \<and>
   fst (formattedHref \<lparr>props = example_props (JString ''HTTPS://odoo.com'') (JBool False), hooks = []\<rparr>)
     = Inr (JString ''HTTPS://odoo.com'')"
  using formattedHref_prefix [of "\<lparr>props = example_props (JString ''odoo.com'') JUndefined, hooks = []\<rparr>"]
    formattedHref_prefix [of "\<lparr>props = example_props (JString ''HTTPS://odoo.com'') (JBool False), hooks = []\<rparr>"]
  by (simp add: example_props_def has_url_prefix_def starts_with_ci_def canonicalize_def)




text \<open>
  Claim C7. Evaluating the getter leaves the component, props bag included, as it was, and
  its result is determined by the two props \<open>value\<close> and \<open>websitePath\<close>: components
  that agree on them get the same result, whatever their other props and hooks.
\<close>

theorem formattedHref_pure:
  "snd (formattedHref this) = this \<and>
   (value_prop (props this) = value_prop (props that) \<and>
    websitePath (props this) = websitePath (props that) \<longrightarrow>
      fst (formattedHref this) = fst (formattedHref that))"
  by (auto simp: formattedHref_def Let_def split: sum.splits)

theorem formattedHref_pure_witness:
  "snd (formattedHref \<lparr>props = example_props (JString ''odoo.com'') JUndefined, hooks = []\<rparr>)
     = \<lparr>props = example_props (JString ''odoo.com'') JUndefined, hooks = []\<rparr> \<and>
   fst (formattedHref \<lparr>props = example_props (JString ''odoo.com'') JUndefined, hooks = []\<rparr>)
     = fst (formattedHref
         (setup_component
           \<lparr>props = (example_props (JString ''odoo.com'') JUndefined)\<lparr>placeholder := JString ''URL''\<rparr>,
            hooks = []\<rparr>))"
  using formattedHref_pure [of "\<lparr>props = example_props (JString ''odoo.com'') JUndefined, hooks = []\<rparr>"
    "setup_component
       \<lparr>props = (example_props (JString ''odoo.com'') JUndefined)\<lparr>placeholder := JString ''URL''\<rparr>,
        hooks = []\<rparr>"]
  by (simp add: example_props_def setup_component_def)

text \<open>
  Claim C9. When \<open>websitePath\<close> is truthy, or \<open>value\<close> is falsy, the getter returns
  \<open>value\<close> itself: nothing is put in front of it and it is not converted to a string.
\<close>

theorem formattedHref_identity:
  assumes "truthy (websitePath (props this)) \<or> \<not> truthy (value_prop (props this))"
  shows "formattedHref this = (Inr (value_prop (props this)), this)"
  using assms by (auto simp: formattedHref_def Let_def)

theorem formattedHref_identity_witness:
  "fst (formattedHref \<lparr>props = example_props (JString ''odoo.com'') (JBool True), hooks = []\<rparr>)
     = Inr (JString ''odoo.com'') \<and>
   fst (formattedHref \<lparr>props = example_props (JNumber PosZero) JUndefined, hooks = []\<rparr>)
     = Inr (JNumber PosZero) \<and>
   fst (formattedHref \<lparr>props = example_props (JBool False) JUndefined, hooks = []\<rparr>)
     = Inr (JBool False)"
  using formattedHref_identity [of "\<lparr>props = example_props (JString ''odoo.com'') (JBool True), hooks = []\<rparr>"]
    formattedHref_identity [of "\<lparr>props = example_props (JNumber PosZero) JUndefined, hooks = []\<rparr>"]
    formattedHref_identity [of "\<lparr>props = example_props (JBool False) JUndefined, hooks = []\<rparr>"]
  by (simp add: example_props_def)

subsection \<open>The form variant\<close>

text \<open>
  Claim C6. \<open>FormUrlField\<close> declares one member of its own, the template
  \<open>web.FormUrlField\<close>, where \<open>UrlField\<close> has \<open>web.UrlField\<close>. Every other member
  resolves to the one of \<open>UrlField\<close>: its \<open>setup\<close> and its getter
  \<open>formattedHref\<close> are the same functions, so they agree on every component.
\<close>

theorem FormUrlField_only_template:
  "own (FormUrlField std) = no_members\<lparr>template := Some ''web.FormUrlField''\<rparr> \<and>
   resolve template (FormUrlField std) = Some ''web.FormUrlField'' \<and>
   resolve template (UrlField std) = Some ''web.UrlField'' \<and>
   resolve props_decl (FormUrlField std) = resolve props_decl (UrlField std) \<and>
   resolve displayName (FormUrlField std) = resolve displayName (UrlField std) \<and>
   resolve supportedTypes (FormUrlField std) = resolve supportedTypes (UrlField std) \<and>
   resolve extractProps (FormUrlField std) = resolve extractProps (UrlField std) \<and>
   resolve setup_method (FormUrlField std) = resolve setup_method (UrlField std) \<and>
   resolve formattedHref_getter (FormUrlField std) = resolve formattedHref_getter (UrlField std) \<and>
   resolve setup_method (FormUrlField std) = Some setup_component \<and>
   resolve formattedHref_getter (FormUrlField std) = Some formattedHref"
  by (simp add: FormUrlField_def UrlField_def no_members_def)

theorem FormUrlField_only_template_witness:
  "resolve template (FormUrlField []) = Some ''web.FormUrlField'' \<and>
   resolve template (UrlField []) = Some ''web.UrlField'' \<and>
   resolve formattedHref_getter (FormUrlField []) = resolve formattedHref_getter (UrlField []) \<and>
   resolve setup_method (FormUrlField []) = resolve setup_method (UrlField [])"
  using FormUrlField_only_template [of "[]"] by simp

section \<open>Properties of the DOM helpers\<close>

subsection \<open>The loading effect\<close>

lemma set_classList_add: "set (classList_add names cs) = set cs \<union> set names"
  unfolding classList_add_def
  by (induction names arbitrary: cs) auto

lemma classList_add_append: "\<exists>ys. classList_add names cs = cs @ ys \<and> set ys \<subseteq> set names"
  unfolding classList_add_def
proof (induction names arbitrary: cs)
  case Nil
  then show ?case by simp
next
  case (Cons n names)
  show ?case
  proof (cases "n \<in> set cs")
    case True
    then show ?thesis using Cons [of cs] by auto
  next
    case False
    obtain ys where "foldl (\<lambda>acc n. if n \<in> set acc then acc else acc @ [n]) (cs @ [n]) names = (cs @ [n]) @ ys"
      "set ys \<subseteq> set names"
      using Cons [of "cs @ [n]"] by blast
    then show ?thesis using False by auto
  qed
qed

lemma classList_remove_add: "classList_remove names (classList_add names cs) = classList_remove names cs"
proof -
  obtain ys where "classList_add names cs = cs @ ys" "set ys \<subseteq> set names"
    using classList_add_append by blast
  then show ?thesis
    by (auto simp: classList_remove_def filter_empty_conv)
qed

lemma classList_remove_id: "(classList_remove names cs = cs) = (set names \<inter> set cs = {})"
  unfolding classList_remove_def by (auto simp: filter_id_conv)

lemma element_eq_iff:
  "((e :: element) = e') = (classList e = classList e' \<and> disabled e = disabled e' \<and> childNodes e = childNodes e')"
  by (cases e, cases e') auto

text \<open>
  Claim C10. For a button element (it has a class list; the element that
  \<open>createElement\<close> returns is a new one, not yet anywhere in the button),
  \<open>addButtonLoadingEffect\<close> adds the classes \<open>o_website_btn_loading\<close> and
  \<open>disabled\<close>, sets \<open>disabled\<close> to \<open>true\<close> and puts a spinner first among the
  children. The callback it returns, run in any later state, removes those two classes,
  sets \<open>disabled\<close> to \<open>false\<close> and takes the spinner out. Run right after the effect
  it gives back the button as it was exactly when the button had \<open>disabled\<close> equal to
  \<open>false\<close> and neither of the two classes.
\<close>

theorem addButtonLoadingEffect_roundtrip:
  assumes "classList (elements w btnEl) = Some cs"
    and "btnEl \<noteq> Created (created w)"
    and "Created (created w) \<notin> set (childNodes (elements w btnEl))"
  shows "fst (addButtonLoadingEffect btnEl w) = Restore btnEl (Created (created w)) \<and>
    has_class (snd (addButtonLoadingEffect btnEl w)) btnEl ''o_website_btn_loading'' \<and>
    has_class (snd (addButtonLoadingEffect btnEl w)) btnEl ''disabled'' \<and>
    classList (elements (snd (addButtonLoadingEffect btnEl w)) btnEl)
      = Some (classList_add [''o_website_btn_loading'', ''disabled''] cs) \<and>
    disabled (elements (snd (addButtonLoadingEffect btnEl w)) btnEl) = JBool True \<and>
    childNodes (elements (snd (addButtonLoadingEffect btnEl w)) btnEl)
      = Created (created w) # childNodes (elements w btnEl) \<and>
    classList (elements (snd (addButtonLoadingEffect btnEl w)) (Created (created w)))
      = Some [''fa'', ''fa-refresh'', ''fa-spin'', ''me-2''] \<and>
    (\<forall>w'. classList (elements (run_job (Restore btnEl (Created (created w))) w') btnEl)
            = map_option (classList_remove [''o_website_btn_loading'', ''disabled''])
                (classList (elements w' btnEl)) \<and>
          disabled (elements (run_job (Restore btnEl (Created (created w))) w') btnEl) = JBool False \<and>
          (\<forall>e. childNodes (elements (run_job (Restore btnEl (Created (created w))) w') e)
                 = removeAll (Created (created w)) (childNodes (elements w' e)))) \<and>
    (elements (run_job (fst (addButtonLoadingEffect btnEl w)) (snd (addButtonLoadingEffect btnEl w))) btnEl
       = elements w btnEl
     \<longleftrightarrow> disabled (elements w btnEl) = JBool False \<and>
         ''o_website_btn_loading'' \<notin> set cs \<and> ''disabled'' \<notin> set cs)"
proof -
  let ?names = "[''o_website_btn_loading'', ''disabled'']"
  let ?l = "Created (created w)"
  let ?w1 = "snd (addButtonLoadingEffect btnEl w)"
  have e1: "elements ?w1 btnEl =
      \<lparr>classList = Some (classList_add ?names cs), disabled = JBool True,
       childNodes = ?l # childNodes (elements w btnEl)\<rparr>"
    using assms
    by (simp add: addButtonLoadingEffect_unfold prepend_def remove_node_def add_classes_def
        set_disabled_def createElement_def Let_def element_eq_iff)
  have l1: "classList (elements ?w1 ?l) = Some [''fa'', ''fa-refresh'', ''fa-spin'', ''me-2'']"
    using assms
    by (simp add: addButtonLoadingEffect_unfold prepend_def remove_node_def add_classes_def
        set_disabled_def createElement_def Let_def classList_add_def)
  have r: "\<And>w'. classList (elements (run_job (Restore btnEl ?l) w') btnEl)
            = map_option (classList_remove ?names) (classList (elements w' btnEl)) \<and>
          disabled (elements (run_job (Restore btnEl ?l) w') btnEl) = JBool False \<and>
          (\<forall>e. childNodes (elements (run_job (Restore btnEl ?l) w') e)
                 = removeAll ?l (childNodes (elements w' e)))"
    by (auto simp: remove_node_def set_disabled_def remove_classes_def Let_def split: option.splits)
  have e2: "elements (run_job (Restore btnEl ?l) ?w1) btnEl =
      \<lparr>classList = Some (classList_remove ?names cs), disabled = JBool False,
       childNodes = childNodes (elements w btnEl)\<rparr>"
    using r [of ?w1] assms(3) by (simp add: e1 element_eq_iff classList_remove_add)
  have iff: "(elements (run_job (Restore btnEl ?l) ?w1) btnEl = elements w btnEl)
     = (disabled (elements w btnEl) = JBool False \<and>
         ''o_website_btn_loading'' \<notin> set cs \<and> ''disabled'' \<notin> set cs)"
    unfolding e2 using assms(1) classList_remove_id [of ?names cs]
    by (auto simp: element_eq_iff)
  show ?thesis
    using e1 l1 r iff
    by (simp add: addButtonLoadingEffect_unfold [of btnEl w, THEN arg_cong, of fst] has_class_def set_classList_add)
qed

theorem addButtonLoadingEffect_roundtrip_witness:
  "has_class (snd (addButtonLoadingEffect (Doc 0) (init example_page))) (Doc 0) ''o_website_btn_loading'' \<and>
   disabled (elements (snd (addButtonLoadingEffect (Doc 0) (init example_page))) (Doc 0)) = JBool True \<and>
   elements (run_job (fst (addButtonLoadingEffect (Doc 0) (init example_page)))
                     (snd (addButtonLoadingEffect (Doc 0) (init example_page)))) (Doc 0)
     = elements (init example_page) (Doc 0)"
proof -
  have h1: "classList (elements (init example_page) (Doc 0)) = Some [''btn'', ''btn-primary'']"
    by (simp add: init_def example_page_def)
  have h2: "Doc 0 \<noteq> Created (created (init example_page))"
    by simp
  have h3: "Created (created (init example_page)) \<notin> set (childNodes (elements (init example_page) (Doc 0)))"
    by (simp add: init_def example_page_def)
  have enabled: "disabled (elements (init example_page) (Doc 0)) = JBool False"
    by (simp add: init_def example_page_def)
  have classes: "''o_website_btn_loading'' \<notin> set [''btn'', ''btn-primary''] \<and>
      ''disabled'' \<notin> set [''btn'', ''btn-primary'']"
    by simp
  note t = addButtonLoadingEffect_roundtrip [OF h1 h2 h3]
  from t have a: "has_class (snd (addButtonLoadingEffect (Doc 0) (init example_page))) (Doc 0) ''o_website_btn_loading''"
    by (elim conjE)
  from t have b: "disabled (elements (snd (addButtonLoadingEffect (Doc 0) (init example_page))) (Doc 0)) = JBool True"
    by (elim conjE)
  from t have c: "(elements (run_job (fst (addButtonLoadingEffect (Doc 0) (init example_page)))
                     (snd (addButtonLoadingEffect (Doc 0) (init example_page)))) (Doc 0)
       = elements (init example_page) (Doc 0))
     = (disabled (elements (init example_page) (Doc 0)) = JBool False \<and>
         ''o_website_btn_loading'' \<notin> set [''btn'', ''btn-primary''] \<and>
         ''disabled'' \<notin> set [''btn'', ''btn-primary''])"
    by (elim conjE)
  show ?thesis
    using a b c enabled classes by blast
qed

subsection \<open>Invariants of the event loop\<close>

text \<open>
  Where the callback \<open>_unlock\<close> is, in every state that can be reached: nowhere while
  the handler is free or after a call of \<open>fct\<close> that threw; once among the reactions
  of the promise that the latest call returned while that promise is pending; once in the
  microtask queue when the latest call returned something that has settled.
\<close>

definition unlock_free :: "world \<Rightarrow> bool" where
  "unlock_free w = (Unlock \<notin> set (microtasks w) \<and> (\<forall>p. Unlock \<notin> set (reactions (promises w p))))"

definition lock_inv :: "world \<Rightarrow> bool" where
  "lock_inv w =
     (if \<not> pending w then unlock_free w \<and> (\<forall>oc\<in>set (calls w). finished w oc)
      else (case calls w of
              [] \<Rightarrow> False
            | oc # rest \<Rightarrow>
                (\<forall>c\<in>set rest. finished w c) \<and>
                (case oc of
                   Throws \<Rightarrow> unlock_free w
                 | Returns r \<Rightarrow>
                     if finished w oc then
                       count_list (microtasks w) Unlock = 1 \<and>
                       (\<forall>p. Unlock \<notin> set (reactions (promises w p)))
                     else
                       Unlock \<notin> set (microtasks w) \<and>
                       (\<forall>q. count_list (reactions (promises w q)) Unlock
                              = (if r = PromiseRef q then 1 else 0)))))"

definition ctrl :: "world \<Rightarrow> bool \<times> outcome list \<times> (nat \<Rightarrow> promise) \<times> job list" where
  "ctrl w = (pending w, calls w, promises w, microtasks w)"

lemma finished_cong: "promises w = promises w' \<Longrightarrow> finished w oc = finished w' oc"
  by (induction w oc rule: finished.induct) auto

lemma lock_inv_cong: "ctrl w = ctrl w' \<Longrightarrow> lock_inv w = lock_inv w'"
  unfolding lock_inv_def unlock_free_def ctrl_def
  by (auto cong: finished_cong split: list.splits outcome.splits) 


lemma ctrl_add_classes [simp]: "ctrl (add_classes e ns w) = ctrl w"
  by (simp add: ctrl_def add_classes_def split: option.splits)
lemma ctrl_remove_classes [simp]: "ctrl (remove_classes e ns w) = ctrl w"
  by (simp add: ctrl_def remove_classes_def split: option.splits)
lemma ctrl_set_disabled [simp]: "ctrl (set_disabled e v w) = ctrl w"
  by (simp add: ctrl_def set_disabled_def)
lemma ctrl_remove_node [simp]: "ctrl (remove_node n w) = ctrl w"
  by (simp add: ctrl_def remove_node_def)
lemma ctrl_prepend [simp]: "ctrl (prepend e n w) = ctrl w"
  by (simp add: ctrl_def prepend_def remove_node_def Let_def)
lemma ctrl_createElement [simp]: "ctrl (snd (createElement w)) = ctrl w"
  by (simp add: ctrl_def createElement_def)
lemma ctrl_addButtonLoadingEffect [simp]: "ctrl (snd (addButtonLoadingEffect b w)) = ctrl w"
  by (simp add: addButtonLoadingEffect_unfold)
lemma ctrl_timers [simp]: "ctrl (w\<lparr>timers := ts\<rparr>) = ctrl w"
  by (simp add: ctrl_def)
lemma ctrl_now [simp]: "ctrl (w\<lparr>now := n\<rparr>) = ctrl w"
  by (simp add: ctrl_def)

lemma count_list_snoc: "count_list (xs @ [y]) x = count_list xs x + (if x = y then 1 else 0)"
  by (induction xs) auto

lemma lock_inv_enqueue: "j \<noteq> Unlock \<Longrightarrow> lock_inv w \<Longrightarrow> lock_inv (enqueue j w)"
  unfolding lock_inv_def unlock_free_def enqueue_def
  by (auto simp: count_list_snoc cong: finished_cong split: list.splits outcome.splits if_splits)

lemma finished_reactions [simp]:
  "finished (w\<lparr>promises := (promises w)(p := (promises w p)\<lparr>reactions := rs\<rparr>)\<rparr>) oc = finished w oc"
  by (induction w oc rule: finished.induct) auto

lemma lock_inv_react:
  "j \<noteq> Unlock \<Longrightarrow> lock_inv w \<Longrightarrow>
   lock_inv (w\<lparr>promises := (promises w)(p := (promises w p)\<lparr>reactions := reactions (promises w p) @ [j]\<rparr>)\<rparr>)"
  unfolding lock_inv_def unlock_free_def
  by (auto simp: count_list_snoc split: list.splits outcome.splits if_splits)

lemma lock_inv_promise_finally: "j \<noteq> Unlock \<Longrightarrow> lock_inv w \<Longrightarrow> lock_inv (promise_finally r j w)"
  unfolding promise_finally_def
  by (auto simp: lock_inv_enqueue lock_inv_react split: rvalue.splits)


lemma finished_alt:
  "finished w oc =
     (case oc of Throws \<Rightarrow> True | Returns (Plain v) \<Rightarrow> True
      | Returns (PromiseRef p) \<Rightarrow> pstate (promises w p) \<noteq> Pending)"
  by (induction w oc rule: finished.induct) auto

lemma lock_acquire:
  assumes "lock_inv w" and "\<not> pending w"
  shows "lock_inv (promise_finally r Unlock (w\<lparr>pending := True, calls := Returns r # calls w\<rparr>))"
  using assms
  unfolding lock_inv_def unlock_free_def promise_finally_def enqueue_def
  by (cases r) (auto simp: count_list_snoc count_list_0_iff finished_alt split: outcome.splits rvalue.splits)

lemma lock_throw:
  assumes "lock_inv w" and "\<not> pending w"
  shows "lock_inv (w\<lparr>pending := True, calls := Throws # calls w\<rparr>)"
  using assms unfolding lock_inv_def unlock_free_def
  by (auto simp: finished_alt split: outcome.splits rvalue.splits)

lemma lock_inv_settle: "lock_inv w \<Longrightarrow> lock_inv (settle p st w)"
  unfolding lock_inv_def unlock_free_def settle_def
  by (auto simp: finished_alt count_list_0_iff split: outcome.splits rvalue.splits list.splits if_splits)


lemma lock_inv_pop:
  assumes "lock_inv w" and "microtasks w = j # js" and "j \<noteq> Unlock"
  shows "lock_inv (w\<lparr>microtasks := js\<rparr>)"
  using assms unfolding lock_inv_def unlock_free_def
  by (auto simp: finished_alt split: outcome.splits rvalue.splits list.splits if_splits)

lemma lock_inv_unlock:
  assumes "lock_inv w" and "microtasks w = Unlock # js"
  shows "lock_inv (w\<lparr>microtasks := js, pending := False\<rparr>)"
  using assms unfolding lock_inv_def unlock_free_def
  by (auto simp: finished_alt count_list_0_iff split: outcome.splits rvalue.splits list.splits if_splits)

lemma lock_inv_run_job:
  assumes "lock_inv w" and "microtasks w = j # js"
  shows "lock_inv (run_job j (w\<lparr>microtasks := js\<rparr>))"
proof (cases j)
  case Unlock
  then show ?thesis using lock_inv_unlock [OF assms(1)] assms(2) by simp
next
  case (Debounced b r)
  have p: "lock_inv (w\<lparr>microtasks := js\<rparr>)"
    using lock_inv_pop [OF assms] Debounced by simp
  have "lock_inv (snd (addButtonLoadingEffect b (remove_classes b [''pe-none''] (w\<lparr>microtasks := js\<rparr>))))"
    using p lock_inv_cong [of "snd (addButtonLoadingEffect b (remove_classes b [''pe-none''] (w\<lparr>microtasks := js\<rparr>)))" "w\<lparr>microtasks := js\<rparr>"]
    by simp
  then show ?thesis
    unfolding Debounced run_job_Debounced by (simp add: lock_inv_promise_finally)
next
  case (Restore b l)
  have p: "lock_inv (w\<lparr>microtasks := js\<rparr>)"
    using lock_inv_pop [OF assms] Restore by simp
  show ?thesis
    using p lock_inv_cong [of "run_job (Restore b l) (w\<lparr>microtasks := js\<rparr>)" "w\<lparr>microtasks := js\<rparr>"]
    unfolding Restore by (simp add: Let_def)
qed

lemma lock_inv_drain: "lock_inv w \<Longrightarrow> lock_inv (drain w)"
proof (induction w rule: drain.induct)
  case (1 w)
  show ?case
  proof (cases "microtasks w")
    case Nil
    then show ?thesis using "1.prems" by (simp add: drain_Nil)
  next
    case (Cons j js)
    then show ?thesis
      using "1.IH" [OF Cons] lock_inv_run_job [OF "1.prems" Cons] by (simp add: drain_Cons)
  qed
qed

lemma microtasks_drain: "microtasks (drain w) = []"
proof (induction w rule: drain.induct)
  case (1 w)
  show ?case
  proof (cases "microtasks w")
    case Nil
    then show ?thesis by (simp add: drain_Nil)
  next
    case (Cons j js)
    then show ?thesis using "1.IH" [OF Cons] by (simp add: drain_Cons)
  qed
qed

lemma lock_inv_fire: "lock_inv w \<Longrightarrow> (\<forall>x\<in>set (timers w). snd x \<noteq> Unlock) \<Longrightarrow> lock_inv (fire k w)"
proof -
  assume a: "lock_inv w" and b: "\<forall>x\<in>set (timers w). snd x \<noteq> Unlock"
  show ?thesis
  proof (cases "k < length (timers w) \<and> fst (timers w ! k) \<le> now w")
    case True
    then have j: "snd (timers w ! k) \<noteq> Unlock" using b by simp
    have "lock_inv (w\<lparr>timers := take k (timers w) @ drop (Suc k) (timers w)\<rparr>)"
      using a lock_inv_cong [of "w\<lparr>timers := take k (timers w) @ drop (Suc k) (timers w)\<rparr>" w] by simp
    then show ?thesis
      using True j by (simp add: fire_def lock_inv_drain lock_inv_enqueue)
  next
    case False
    then show ?thesis using a by (auto simp: fire_def)
  qed
qed


definition sched :: "world \<Rightarrow> (nat \<times> job) list \<times> nat" where
  "sched w = (timers w, now w)"

lemma sched_add_classes [simp]: "sched (add_classes e ns w) = sched w"
  by (simp add: sched_def add_classes_def split: option.splits)
lemma sched_remove_classes [simp]: "sched (remove_classes e ns w) = sched w"
  by (simp add: sched_def remove_classes_def split: option.splits)
lemma sched_set_disabled [simp]: "sched (set_disabled e v w) = sched w"
  by (simp add: sched_def set_disabled_def)
lemma sched_remove_node [simp]: "sched (remove_node n w) = sched w"
  by (simp add: sched_def remove_node_def)
lemma sched_prepend [simp]: "sched (prepend e n w) = sched w"
  by (simp add: sched_def prepend_def remove_node_def Let_def)
lemma sched_createElement [simp]: "sched (snd (createElement w)) = sched w"
  by (simp add: sched_def createElement_def)
lemma sched_addButtonLoadingEffect [simp]: "sched (snd (addButtonLoadingEffect b w)) = sched w"
  by (simp add: addButtonLoadingEffect_unfold)
lemma sched_promise_finally [simp]: "sched (promise_finally r j w) = sched w"
  by (simp add: sched_def promise_finally_def enqueue_def split: rvalue.splits)
lemma sched_enqueue [simp]: "sched (enqueue j w) = sched w"
  by (simp add: sched_def enqueue_def)
lemma sched_settle [simp]: "sched (settle p st w) = sched w"
  by (simp add: sched_def settle_def)
lemma sched_microtasks [simp]: "sched (w\<lparr>microtasks := ms\<rparr>) = sched w"
  by (simp add: sched_def)

lemma sched_run_job [simp]: "sched (run_job j w) = sched w"
proof (cases j)
  case Unlock
  then show ?thesis by (simp add: sched_def)
next
  case (Debounced b r)
  then show ?thesis by (simp add: run_job_Debounced)
next
  case (Restore b l)
  then show ?thesis by (simp add: Let_def)
qed

lemma sched_drain [simp]: "sched (drain w) = sched w"
proof (induction w rule: drain.induct)
  case (1 w)
  show ?case
  proof (cases "microtasks w")
    case Nil
    then show ?thesis by (simp add: drain_Nil)
  next
    case (Cons j js)
    then show ?thesis using "1.IH" [OF Cons] by (simp add: drain_Cons)
  qed
qed

fun is_debounced :: "job \<Rightarrow> bool" where
  "is_debounced (Debounced b r) = True"
| "is_debounced j = False"

definition timer_inv :: "world \<Rightarrow> bool" where
  "timer_inv w = (\<forall>x\<in>set (timers w). is_debounced (snd x))"

definition rquiet :: "world \<Rightarrow> bool" where
  "rquiet w = (\<forall>p. \<forall>j\<in>set (reactions (promises w p)). \<not> is_debounced j)"

definition quiet :: "world \<Rightarrow> bool" where
  "quiet w = ((\<forall>j\<in>set (microtasks w). \<not> is_debounced j) \<and> rquiet w)"

lemma timer_inv_sched: "sched w' = sched w \<Longrightarrow> timer_inv w' = timer_inv w"
  by (simp add: timer_inv_def sched_def)

lemma rquiet_ctrl: "ctrl w' = ctrl w \<Longrightarrow> rquiet w' = rquiet w"
  by (simp add: rquiet_def ctrl_def)

lemma quiet_ctrl: "ctrl w' = ctrl w \<Longrightarrow> quiet w' = quiet w"
  by (simp add: quiet_def rquiet_def ctrl_def)

lemma rquiet_promise_finally: "\<not> is_debounced j \<Longrightarrow> rquiet w \<Longrightarrow> rquiet (promise_finally r j w)"
  by (auto simp: rquiet_def promise_finally_def enqueue_def split: rvalue.splits)

lemma quiet_promise_finally: "\<not> is_debounced j \<Longrightarrow> quiet w \<Longrightarrow> quiet (promise_finally r j w)"
  by (auto simp: quiet_def rquiet_def promise_finally_def enqueue_def split: rvalue.splits)

lemma rquiet_run_job: "rquiet w \<Longrightarrow> rquiet (run_job j w)"
proof (cases j)
  case Unlock
  assume "rquiet w" then show ?thesis using Unlock by (simp add: rquiet_def)
next
  case (Debounced b r)
  assume a: "rquiet w"
  have "rquiet (snd (addButtonLoadingEffect b (remove_classes b [''pe-none''] w)))"
    using a rquiet_ctrl [of "snd (addButtonLoadingEffect b (remove_classes b [''pe-none''] w))" w] by simp
  then show ?thesis unfolding Debounced run_job_Debounced by (simp add: rquiet_promise_finally)
next
  case (Restore b l)
  assume a: "rquiet w"
  show ?thesis
    using a rquiet_ctrl [of "run_job (Restore b l) w" w] unfolding Restore by (simp add: Let_def)
qed

lemma rquiet_drain: "rquiet w \<Longrightarrow> rquiet (drain w)"
proof (induction w rule: drain.induct)
  case (1 w)
  show ?case
  proof (cases "microtasks w")
    case Nil
    then show ?thesis using "1.prems" by (simp add: drain_Nil)
  next
    case (Cons j js)
    have "rquiet (w\<lparr>microtasks := js\<rparr>)" using "1.prems" by (simp add: rquiet_def)
    then show ?thesis
      using "1.IH" [OF Cons] Cons by (simp add: drain_Cons rquiet_run_job)
  qed
qed

lemma quiet_drain: "rquiet w \<Longrightarrow> quiet (drain w)"
  by (simp add: quiet_def microtasks_drain rquiet_drain)


definition acquired :: "outcome \<Rightarrow> world \<Rightarrow> world" where
  "acquired oc w =
     (case oc of
        Throws \<Rightarrow> w\<lparr>pending := True, calls := Throws # calls w\<rparr>
      | Returns r \<Rightarrow> promise_finally r Unlock (w\<lparr>pending := True, calls := Returns r # calls w\<rparr>))"

lemma guard_error_left_out [simp]: "guard_error (Literal JUndefined) (Literal JUndefined) call = None"
  by (simp add: guard_error_def guard_holds_def)

lemma makeAsyncHandler_world:
  "snd (snd (makeAsyncHandler pd sp call w)) =
     (if pending w \<or> guard_error pd sp call \<noteq> None then w else acquired (inv_fct call) w)"
  by (simp add: makeAsyncHandler_def guard_error_def acquired_def Let_def split: outcome.splits sum.splits)

lemma makeAsyncHandler_result:
  "fst (makeAsyncHandler pd sp call w) =
     (case guard_error pd sp call of
        Some e \<Rightarrow> Inl e
      | None \<Rightarrow>
          if pending w then Inr (Plain JUndefined)
          else case inv_fct call of Throws \<Rightarrow> Inl Thrown | Returns r \<Rightarrow> Inr r)"
  by (simp add: makeAsyncHandler_def guard_error_def Let_def split: outcome.splits sum.splits)

lemma makeAsyncHandler_event:
  "closest_btn (fst (snd (makeAsyncHandler pd sp call w))) = closest_btn (inv_event call)"
  by (simp add: makeAsyncHandler_def closest_btn_def Let_def split: outcome.splits sum.splits)

definition debounce :: "node \<Rightarrow> rvalue \<Rightarrow> world \<Rightarrow> world" where
  "debounce b r w =
     (add_classes b [''pe-none''] w)\<lparr>timers := timers w @ [(now w + DEBOUNCE, Debounced b r)]\<rparr>"

lemma makeButtonHandler_result:
  "fst (makeButtonHandler call w) = fst (makeAsyncHandler (Literal JUndefined) (Literal JUndefined) call w)"
  by (cases "makeAsyncHandler (Literal JUndefined) (Literal JUndefined) call w")
     (auto simp: makeButtonHandler_def Let_def split: sum.splits option.splits)

lemma makeButtonHandler_world:
  "snd (snd (makeButtonHandler call w)) =
     (case fst (makeAsyncHandler (Literal JUndefined) (Literal JUndefined) call w) of
        Inl e \<Rightarrow> snd (snd (makeAsyncHandler (Literal JUndefined) (Literal JUndefined) call w))
      | Inr r \<Rightarrow>
          (case closest_btn (inv_event call) of
             None \<Rightarrow> snd (snd (makeAsyncHandler (Literal JUndefined) (Literal JUndefined) call w))
           | Some b \<Rightarrow> debounce b r (snd (snd (makeAsyncHandler (Literal JUndefined) (Literal JUndefined) call w)))))"
proof -
  have s: "sched (add_classes b ns v) = sched v" for b ns v by simp
  obtain res ev w1 where m: "makeAsyncHandler (Literal JUndefined) (Literal JUndefined) call w = (res, ev, w1)"
    by (cases "makeAsyncHandler (Literal JUndefined) (Literal JUndefined) call w") auto
  have e: "closest_btn ev = closest_btn (inv_event call)"
    using makeAsyncHandler_event [of "Literal JUndefined" "Literal JUndefined" call w] m by simp
  have t: "timers (add_classes b ns v) = timers v \<and> now (add_classes b ns v) = now v" for b ns v
    using s [of b ns v] by (simp add: sched_def)
  show ?thesis
    by (simp add: makeButtonHandler_def m e debounce_def DEBOUNCE_def Let_def t split: sum.splits option.splits)
qed

definition world_inv :: "world \<Rightarrow> bool" where
  "world_inv w = (lock_inv w \<and> timer_inv w \<and> quiet w)"

lemma world_inv_acquired: "world_inv w \<Longrightarrow> \<not> pending w \<Longrightarrow> world_inv (acquired oc w)"
proof (cases oc)
  case (Returns r)
  assume a: "world_inv w" "\<not> pending w"
  have q: "quiet (w\<lparr>pending := True, calls := Returns r # calls w\<rparr>)"
    using a by (simp add: world_inv_def quiet_def rquiet_def)
  have t: "timer_inv (promise_finally r Unlock (w\<lparr>pending := True, calls := Returns r # calls w\<rparr>))"
    using a by (cases r) (simp_all add: world_inv_def timer_inv_def promise_finally_def enqueue_def)
  show ?thesis
    using a q t by (simp add: world_inv_def acquired_def Returns lock_acquire quiet_promise_finally)
next
  case Throws
  assume a: "world_inv w" "\<not> pending w"
  then show ?thesis
    by (simp add: world_inv_def acquired_def Throws lock_throw quiet_def rquiet_def timer_inv_def)
qed

lemma world_inv_debounce: "world_inv w \<Longrightarrow> world_inv (debounce b r w)"
proof -
  assume a: "world_inv w"
  have c: "ctrl (debounce b r w) = ctrl w"
    by (simp add: debounce_def)
  have s: "timers (debounce b r w) = timers w @ [(now w + DEBOUNCE, Debounced b r)]"
    by (simp add: debounce_def)
  show ?thesis
    using a lock_inv_cong [OF c] quiet_ctrl [OF c] s by (simp add: world_inv_def timer_inv_def)
qed

lemma world_inv_handle: "world_inv w \<Longrightarrow> world_inv (snd (snd (handle h call w)))"
proof (cases h)
  case (AsyncHandler pd sp)
  assume "world_inv w"
  then show ?thesis
    by (simp add: handle_def AsyncHandler makeAsyncHandler_world world_inv_acquired)
next
  case ButtonHandler
  assume a: "world_inv w"
  have "world_inv (snd (snd (makeAsyncHandler (Literal JUndefined) (Literal JUndefined) call w)))"
    using a by (simp add: makeAsyncHandler_world world_inv_acquired)
  then show ?thesis
    by (simp add: handle_def ButtonHandler makeButtonHandler_world world_inv_debounce
        split: sum.splits option.splits)
qed

lemma world_inv_settle: "world_inv w \<Longrightarrow> world_inv (settle p st w)"
proof -
  assume a: "world_inv w"
  have q: "quiet (settle p st w)"
    using a by (auto simp: world_inv_def quiet_def rquiet_def settle_def)
  show ?thesis
    using a q timer_inv_sched [of "settle p st w" w] by (simp add: world_inv_def lock_inv_settle)
qed

lemma world_inv_drain: "world_inv w \<Longrightarrow> world_inv (drain w)"
proof -
  assume a: "world_inv w"
  then have "rquiet w" by (simp add: world_inv_def quiet_def)
  then have "quiet (drain w)" by (rule quiet_drain)
  then show ?thesis
    using a timer_inv_sched [of "drain w" w] by (simp add: world_inv_def lock_inv_drain)
qed

lemma world_inv_fire: "world_inv w \<Longrightarrow> world_inv (fire k w)"
proof (cases "k < length (timers w) \<and> fst (timers w ! k) \<le> now w")
  case True
  assume a: "world_inv w"
  let ?w1 = "enqueue (snd (timers w ! k)) (w\<lparr>timers := take k (timers w) @ drop (Suc k) (timers w)\<rparr>)"
  have f: "fire k w = drain ?w1" using True by (simp add: fire_def)
  have "\<forall>x\<in>set (timers w). snd x \<noteq> Unlock"
    using a by (auto simp: world_inv_def timer_inv_def)
  then have l: "lock_inv (fire k w)"
    using a lock_inv_fire [of w k] by (simp add: world_inv_def)
  have "rquiet ?w1" using a by (simp add: world_inv_def quiet_def rquiet_def enqueue_def)
  then have q: "quiet (fire k w)" unfolding f by (rule quiet_drain)
  have "set (take k (timers w) @ drop (Suc k) (timers w)) \<subseteq> set (timers w)"
    using set_take_subset [of k "timers w"] set_drop_subset [of "Suc k" "timers w"] by auto
  then have "timer_inv ?w1" using a by (auto simp: world_inv_def timer_inv_def enqueue_def)
  then have t: "timer_inv (fire k w)"
    unfolding f using timer_inv_sched [of "drain ?w1" ?w1] by simp
  show ?thesis using l q t by (simp add: world_inv_def)
next
  case False
  assume "world_inv w"
  then show ?thesis using False by (auto simp: fire_def)
qed

lemma world_inv_step: "world_inv w \<Longrightarrow> world_inv (step h t w)"
proof (cases t)
  case (Tick n)
  assume a: "world_inv w"
  have "ctrl (w\<lparr>now := now w + n\<rparr>) = ctrl w" by simp
  then show ?thesis
    using a lock_inv_cong [of "w\<lparr>now := now w + n\<rparr>" w] quiet_ctrl [of "w\<lparr>now := now w + n\<rparr>" w]
    by (simp add: Tick world_inv_def timer_inv_def)
qed (simp_all add: world_inv_handle world_inv_settle world_inv_drain world_inv_fire)

lemma world_inv_init: "world_inv (init els)"
  by (simp add: world_inv_def lock_inv_def unlock_free_def timer_inv_def quiet_def rquiet_def init_def)

lemma reachable_inv: "reachable h w \<Longrightarrow> world_inv w"
  by (induction rule: reachable.induct) (simp_all add: world_inv_init world_inv_step)


subsection \<open>The guard against overlapping calls\<close>

lemma unfinished_pending: "lock_inv w \<Longrightarrow> unfinished w \<noteq> [] \<Longrightarrow> pending w"
  unfolding lock_inv_def unfinished_def
  by (auto simp: filter_empty_conv split: if_splits)

lemma unfinished_at_most_one: "lock_inv w \<Longrightarrow> length (unfinished w) \<le> 1"
proof (cases "pending w")
  case False
  assume "lock_inv w"
  then have "unfinished w = []"
    using False unfolding lock_inv_def unfinished_def by (auto simp: filter_empty_conv)
  then show ?thesis by simp
next
  case True
  assume a: "lock_inv w"
  then obtain oc rest where c: "calls w = oc # rest" and r: "\<forall>c\<in>set rest. finished w c"
    using True unfolding lock_inv_def by (auto split: list.splits)
  have "filter (\<lambda>oc. \<not> finished w oc) rest = []"
    using r by (auto simp: filter_empty_conv)
  then show ?thesis by (simp add: unfinished_def c)
qed

lemma pending_at_rest:
  assumes "lock_inv w" and "microtasks w = []" and "pending w"
  shows "(\<exists>rest. calls w = Throws # rest) \<or>
         (\<exists>p rest. calls w = Returns (PromiseRef p) # rest \<and> pstate (promises w p) = Pending)"
  using assms unfolding lock_inv_def
  by (auto simp: finished_alt split: list.splits outcome.splits rvalue.splits if_splits)

lemma pending_iff_unfinished:
  assumes "lock_inv w" and "microtasks w = []" and "Throws \<notin> set (calls w)"
  shows "pending w = (unfinished w \<noteq> [])"
proof
  assume "pending w"
  then show "unfinished w \<noteq> []"
    using pending_at_rest [OF assms(1,2)] assms(3) by (auto simp: unfinished_def)
next
  assume "unfinished w \<noteq> []"
  then show "pending w" using unfinished_pending [OF assms(1)] by simp
qed

text \<open>
  Claim C1, as stated (once no call of \<open>fct\<close> is unfinished, a call of the handler calls
  \<open>fct\<close>), fails between the end of an action and the microtask that resets
  \<open>pending\<close>. The handler is called and \<open>fct\<close> returns \<open>null\<close>, which is no
  promise: the action has finished, and \<open>_unlock\<close> waits in the microtask queue. A
  second call in the same task, before the queue is run, returns \<open>undefined\<close> and does
  not call \<open>fct\<close>.
\<close>

theorem finished_call_still_locked:
  "unfinished (step (AsyncHandler (Literal JUndefined) (Literal JUndefined))
                 (Invoke (example_call (Returns (Plain JNull)))) (init example_page)) = [] \<and>
   fst (makeAsyncHandler (Literal JUndefined) (Literal JUndefined) (example_call (Returns (Plain JNull)))
         (step (AsyncHandler (Literal JUndefined) (Literal JUndefined))
            (Invoke (example_call (Returns (Plain JNull)))) (init example_page)))
     = Inr (Plain JUndefined) \<and>
   calls (snd (snd (makeAsyncHandler (Literal JUndefined) (Literal JUndefined)
                      (example_call (Returns (Plain JNull)))
         (step (AsyncHandler (Literal JUndefined) (Literal JUndefined))
            (Invoke (example_call (Returns (Plain JNull)))) (init example_page)))))
     = [Returns (Plain JNull)]"
  by (simp add: unfinished_def handle_def makeAsyncHandler_world makeAsyncHandler_result acquired_def
      example_call_def promise_finally_def enqueue_def init_def)

text \<open>
  Claim C1, amended. In every state that the handler returned by \<open>makeAsyncHandler\<close>
  can reach, at most one call of \<open>fct\<close> made through it is unfinished, so two calls
  never overlap. For a call of the handler whose guards raise nothing: while a call of
  \<open>fct\<close> is unfinished, it returns \<open>undefined\<close> and changes nothing, so it does not
  call \<open>fct\<close>; once no call of \<open>fct\<close> is unfinished and the microtask queue has been
  run, it calls \<open>fct\<close> exactly once and hands on what \<open>fct\<close> returns or throws,
  provided no earlier call of \<open>fct\<close> has thrown. A call of the handler in which a guard
  raises ends with that error: it does not read or set \<open>pending\<close> and does not call
  \<open>fct\<close>.
\<close>

theorem makeAsyncHandler_guards:
  assumes "reachable (AsyncHandler preventDefault stopPropagation) w"
  shows "length (unfinished w) \<le> 1 \<and>
         (guard_error preventDefault stopPropagation call = None \<longrightarrow>
            (unfinished w \<noteq> [] \<longrightarrow>
               fst (makeAsyncHandler preventDefault stopPropagation call w) = Inr (Plain JUndefined) \<and>
               snd (snd (makeAsyncHandler preventDefault stopPropagation call w)) = w) \<and>
            (unfinished w = [] \<and> microtasks w = [] \<and> Throws \<notin> set (calls w) \<longrightarrow>
               fst (makeAsyncHandler preventDefault stopPropagation call w)
                 = (case inv_fct call of Throws \<Rightarrow> Inl Thrown | Returns r \<Rightarrow> Inr r) \<and>
               calls (snd (snd (makeAsyncHandler preventDefault stopPropagation call w)))
                 = inv_fct call # calls w)) \<and>
         (\<forall>e. guard_error preventDefault stopPropagation call = Some e \<longrightarrow>
            fst (makeAsyncHandler preventDefault stopPropagation call w) = Inl e \<and>
            snd (snd (makeAsyncHandler preventDefault stopPropagation call w)) = w)"
proof -
  have i: "lock_inv w" using reachable_inv [OF assms] by (simp add: world_inv_def)
  have c: "calls (promise_finally r j v) = calls v" for r j v
    by (simp add: promise_finally_def enqueue_def split: rvalue.splits)
  have a: "calls (acquired (inv_fct call) w) = inv_fct call # calls w"
    by (cases "inv_fct call") (simp_all add: acquired_def c)
  have locked: "unfinished w \<noteq> [] \<Longrightarrow> pending w"
    using unfinished_pending [OF i] .
  have free: "unfinished w = [] \<Longrightarrow> microtasks w = [] \<Longrightarrow> Throws \<notin> set (calls w) \<Longrightarrow> \<not> pending w"
    using pending_iff_unfinished [OF i] by simp
  show ?thesis
    using unfinished_at_most_one [OF i] locked free a
    by (auto simp: makeAsyncHandler_world makeAsyncHandler_result)
qed

theorem makeAsyncHandler_guards_witness:
  "fst (makeAsyncHandler (Literal (JBool True)) Function (example_call (Returns (Plain JNull)))
         (step (AsyncHandler (Literal (JBool True)) Function) (Invoke (example_call (Returns (PromiseRef 7))))
            (init example_page)))
     = Inr (Plain JUndefined) \<and>
   calls (snd (snd (makeAsyncHandler (Literal (JBool True)) Function (example_call (Returns (Plain JNull)))
         (init example_page)))) = [Returns (Plain JNull)] \<and>
   fst (makeAsyncHandler (Literal (JBool True)) Function
          ((example_call (Returns (Plain JNull)))\<lparr>inv_stopPropagation := Inl Thrown\<rparr>)
          (init example_page)) = Inl Thrown"
proof -
  let ?h = "AsyncHandler (Literal (JBool True)) Function"
  let ?c = "example_call (Returns (Plain JNull))"
  let ?w1 = "step ?h (Invoke (example_call (Returns (PromiseRef 7)))) (init example_page)"
  have r0: "reachable ?h (init example_page)" by (rule reachable_init)
  have r1: "reachable ?h ?w1" by (rule reachable_step [OF r0])
  have g: "guard_error (Literal (JBool True)) Function ?c = None"
    and g': "guard_error (Literal (JBool True)) Function (?c\<lparr>inv_stopPropagation := Inl Thrown\<rparr>) = Some Thrown"
    by (simp_all add: guard_error_def guard_holds_def example_call_def)
  have u: "unfinished ?w1 \<noteq> []"
    by (simp add: unfinished_def handle_def makeAsyncHandler_world acquired_def guard_error_def
        guard_holds_def example_call_def promise_finally_def init_def)
  have f: "unfinished (init example_page) = []" "microtasks (init example_page) = []"
    "Throws \<notin> set (calls (init example_page))" "calls (init example_page) = []"
    "inv_fct ?c = Returns (Plain JNull)"
    by (simp_all add: init_def unfinished_def example_call_def)
  note t1 = makeAsyncHandler_guards [OF r1, of ?c]
  note t0 = makeAsyncHandler_guards [OF r0, of ?c]
  note t2 = makeAsyncHandler_guards [OF r0, of "?c\<lparr>inv_stopPropagation := Inl Thrown\<rparr>"]
  have a1: "fst (makeAsyncHandler (Literal (JBool True)) Function ?c ?w1) = Inr (Plain JUndefined)"
    using t1 g u by blast
  have a0: "calls (snd (snd (makeAsyncHandler (Literal (JBool True)) Function ?c (init example_page))))
      = inv_fct ?c # calls (init example_page)"
    using t0 g f(1,2,3) by blast
  have a2: "fst (makeAsyncHandler (Literal (JBool True)) Function
      (?c\<lparr>inv_stopPropagation := Inl Thrown\<rparr>) (init example_page)) = Inl Thrown"
    using t2 g' by blast
  show ?thesis
    using a1 a0 a2 by (simp only: f(4,5)) 
qed

text \<open>
  Claim C5. The handler returned by \<open>makeButtonHandler\<close> goes through the guard of
  \<open>makeAsyncHandler\<close>: in every state it can reach in which a call of \<open>fct\<close> has
  not finished, a call of it, whatever the target of the event, returns \<open>undefined\<close>
  and does not call \<open>fct\<close>.
\<close>

theorem makeButtonHandler_guarded:
  assumes "reachable ButtonHandler w" and "unfinished w \<noteq> []"
  shows "fst (makeButtonHandler call w) = Inr (Plain JUndefined) \<and>
         calls (snd (snd (makeButtonHandler call w))) = calls w \<and>
         calls (step ButtonHandler (Invoke call) w) = calls w"
proof -
  have i: "lock_inv w" using reachable_inv [OF assms(1)] by (simp add: world_inv_def)
  have p: "pending w" using unfinished_pending [OF i assms(2)] .
  have c: "calls (debounce b r v) = calls v" for b r v
    using ctrl_add_classes [of b "[''pe-none'']" v] by (simp add: debounce_def ctrl_def)
  show ?thesis
    using p
    by (simp add: handle_def makeButtonHandler_result makeButtonHandler_world makeAsyncHandler_result
        makeAsyncHandler_world c split: option.splits)
qed

theorem makeButtonHandler_guarded_witness:
  "fst (makeButtonHandler (example_call (Returns (Plain JNull)))
         (step ButtonHandler (Invoke (example_call (Returns (PromiseRef 7)))) (init example_page)))
     = Inr (Plain JUndefined) \<and>
   calls (step ButtonHandler (Invoke ((example_call (Returns (Plain JNull)))\<lparr>inv_event := \<lparr>target = NoTarget, defaultPrevented = False, propagationStopped = False\<rparr>\<rparr>))
         (step ButtonHandler (Invoke (example_call (Returns (PromiseRef 7)))) (init example_page)))
     = [Returns (PromiseRef 7)]"
proof -
  let ?w1 = "step ButtonHandler (Invoke (example_call (Returns (PromiseRef 7)))) (init example_page)"
  have r1: "reachable ButtonHandler ?w1" by (rule reachable_step [OF reachable_init])
  have c: "calls ?w1 = [Returns (PromiseRef 7)]" "pstate (promises ?w1 7) = Pending"
    by (simp_all add: handle_def makeButtonHandler_world makeAsyncHandler_world makeAsyncHandler_result
        acquired_def debounce_def add_classes_def closest_btn_def
        example_call_def promise_finally_def init_def example_page_def)
  have "\<not> finished ?w1 (Returns (PromiseRef 7))"
    by (simp only: finished.simps c) simp
  then have u: "unfinished ?w1 \<noteq> []"
    by (simp only: unfinished_def c(1)) simp
  show ?thesis
    using makeButtonHandler_guarded [OF r1 u, of "example_call (Returns (Plain JNull))"]
      makeButtonHandler_guarded [OF r1 u, of "(example_call (Returns (Plain JNull)))\<lparr>inv_event := \<lparr>target = NoTarget, defaultPrevented = False, propagationStopped = False\<rparr>\<rparr>"]
      c
    by simp
qed


subsection \<open>A call that throws\<close>

definition stuck :: "outcome list \<Rightarrow> world \<Rightarrow> bool" where
  "stuck cs w = (pending w \<and> unlock_free w \<and> calls w = cs)"

lemma stuck_ctrl: "ctrl w' = ctrl w \<Longrightarrow> stuck cs w' = stuck cs w"
  by (simp add: stuck_def unlock_free_def ctrl_def)

lemma stuck_enqueue: "j \<noteq> Unlock \<Longrightarrow> stuck cs w \<Longrightarrow> stuck cs (enqueue j w)"
  by (simp add: stuck_def unlock_free_def enqueue_def)

lemma stuck_promise_finally: "j \<noteq> Unlock \<Longrightarrow> stuck cs w \<Longrightarrow> stuck cs (promise_finally r j w)"
  by (auto simp: stuck_def unlock_free_def promise_finally_def enqueue_def split: rvalue.splits)

lemma stuck_settle: "stuck cs w \<Longrightarrow> stuck cs (settle p st w)"
  by (auto simp: stuck_def unlock_free_def settle_def)

lemma stuck_run_job:
  assumes "stuck cs w" and "microtasks w = j # js"
  shows "stuck cs (run_job j (w\<lparr>microtasks := js\<rparr>))"
proof -
  have p: "stuck cs (w\<lparr>microtasks := js\<rparr>)" and n: "j \<noteq> Unlock"
    using assms by (auto simp: stuck_def unlock_free_def)
  show ?thesis
  proof (cases j)
    case Unlock
    then show ?thesis using n by simp
  next
    case (Debounced b r)
    have "stuck cs (snd (addButtonLoadingEffect b (remove_classes b [''pe-none''] (w\<lparr>microtasks := js\<rparr>))))"
      using p stuck_ctrl [of "snd (addButtonLoadingEffect b (remove_classes b [''pe-none''] (w\<lparr>microtasks := js\<rparr>)))" "w\<lparr>microtasks := js\<rparr>" cs]
      by simp
    then show ?thesis
      unfolding Debounced run_job_Debounced by (simp add: stuck_promise_finally)
  next
    case (Restore b l)
    show ?thesis
      using p stuck_ctrl [of "run_job (Restore b l) (w\<lparr>microtasks := js\<rparr>)" "w\<lparr>microtasks := js\<rparr>" cs]
      unfolding Restore by (simp add: Let_def)
  qed
qed

lemma stuck_drain: "stuck cs w \<Longrightarrow> stuck cs (drain w)"
proof (induction w rule: drain.induct)
  case (1 w)
  show ?case
  proof (cases "microtasks w")
    case Nil
    then show ?thesis using "1.prems" by (simp add: drain_Nil)
  next
    case (Cons j js)
    then show ?thesis
      using "1.IH" [OF Cons] stuck_run_job [OF "1.prems" Cons] by (simp add: drain_Cons)
  qed
qed

lemma stuck_handle: "stuck cs w \<Longrightarrow> stuck cs (snd (snd (handle h call w)))"
proof (cases h)
  case (AsyncHandler pd sp)
  assume "stuck cs w"
  then show ?thesis by (simp add: handle_def AsyncHandler makeAsyncHandler_world stuck_def)
next
  case ButtonHandler
  assume a: "stuck cs w"
  have d: "stuck cs (debounce b r w)" for b r
    using a stuck_ctrl [of "debounce b r w" w cs] by (simp add: debounce_def)
  show ?thesis
    using a d
    by (simp add: handle_def ButtonHandler makeButtonHandler_world makeAsyncHandler_world
        makeAsyncHandler_result stuck_def split: option.splits)
qed

lemma stuck_fire: "stuck cs w \<Longrightarrow> timer_inv w \<Longrightarrow> stuck cs (fire k w)"
proof (cases "k < length (timers w) \<and> fst (timers w ! k) \<le> now w")
  case True
  assume a: "stuck cs w" and t: "timer_inv w"
  have "is_debounced (snd (timers w ! k))" using True t by (simp add: timer_inv_def)
  then have j: "snd (timers w ! k) \<noteq> Unlock" by auto
  have "stuck cs (w\<lparr>timers := take k (timers w) @ drop (Suc k) (timers w)\<rparr>)"
    using a by (simp add: stuck_def unlock_free_def)
  then show ?thesis
    using True j by (simp add: fire_def stuck_drain stuck_enqueue)
next
  case False
  assume "stuck cs w"
  then show ?thesis using False by (auto simp: fire_def)
qed

lemma stuck_step: "stuck cs w \<Longrightarrow> timer_inv w \<Longrightarrow> stuck cs (step h t w)"
  by (cases t) (simp_all add: stuck_handle stuck_settle stuck_drain stuck_fire,
      simp add: stuck_def unlock_free_def)

lemma stuck_run: "stuck cs w \<Longrightarrow> world_inv w \<Longrightarrow> stuck cs (run h ts w)"
proof (induction ts arbitrary: w)
  case Nil
  then show ?case by (simp add: run_def)
next
  case (Cons t ts)
  have "stuck cs (step h t w)" using Cons.prems by (simp add: stuck_step world_inv_def)
  moreover have "world_inv (step h t w)" using Cons.prems by (simp add: world_inv_step)
  ultimately have "stuck cs (run h ts (step h t w))" by (rule Cons.IH)
  then show ?case by (simp add: run_def)
qed

lemma handle_throws:
  "\<not> pending w \<Longrightarrow> inv_fct call = Throws \<Longrightarrow> handle_guard_error h call = None \<Longrightarrow>
   fst (handle h call w) = Inl Thrown \<and>
   snd (snd (handle h call w)) = w\<lparr>pending := True, calls := Throws # calls w\<rparr>"
  by (cases h)
     (simp_all add: handle_def handle_guard_error_def makeButtonHandler_result makeButtonHandler_world
        makeAsyncHandler_result makeAsyncHandler_world acquired_def)

lemma handle_locked:
  "pending w \<Longrightarrow>
   fst (handle h call w) =
     (case handle_guard_error h call of None \<Rightarrow> Inr (Plain JUndefined) | Some e \<Rightarrow> Inl e)"
  by (cases h)
     (simp_all add: handle_def handle_guard_error_def makeButtonHandler_result makeAsyncHandler_result
        split: option.splits)

lemma handle_guard_raises:
  "handle_guard_error h call = Some e \<Longrightarrow>
   fst (handle h call w) = Inl e \<and> snd (snd (handle h call w)) = w"
  by (cases h)
     (simp_all add: handle_def handle_guard_error_def makeAsyncHandler_result makeAsyncHandler_world)

text \<open>
  Claim C8, at the input where the code departs from it: a call of \<open>fct\<close> that throws.
  The handler has set \<open>pending\<close> and the exception leaves it before
  \<open>Promise.resolve(result).finally(_unlock)\<close> is reached, so nothing will ever reset
  the flag: whatever happens afterwards, \<open>pending\<close> stays set, \<open>fct\<close> is not called
  again and every call of the handler returns \<open>undefined\<close> (or ends with the error of
  one of its guards, which are asked before the flag is read). The one call in which this
  does not happen is a call that does not reach \<open>fct\<close>, because a guard of it raises:
  that call ends with the error of the guard and changes nothing. (For a call of \<open>fct\<close>
  that returns, \<open>pending_at_rest\<close> above gives what the claim says: after a checkpoint
  the flag is set only while the returned promise is pending, be it fulfilled or rejected
  later.)
\<close>

theorem throw_locks_forever:
  assumes "reachable h w" and "\<not> pending w" and "inv_fct call = Throws"
  shows "case handle_guard_error h call of
           Some e \<Rightarrow> fst (handle h call w) = Inl e \<and> step h (Invoke call) w = w
         | None \<Rightarrow>
             fst (handle h call w) = Inl Thrown \<and>
             (\<forall>ts. pending (run h ts (step h (Invoke call) w)) \<and>
                   calls (run h ts (step h (Invoke call) w)) = Throws # calls w \<and>
                   (\<forall>call'. fst (handle h call' (run h ts (step h (Invoke call) w)))
                              = (case handle_guard_error h call' of
                                   None \<Rightarrow> Inr (Plain JUndefined)
                                 | Some e \<Rightarrow> Inl e)))"
proof (cases "handle_guard_error h call")
  case (Some e)
  then show ?thesis using handle_guard_raises [OF Some, of w] by simp
next
  case None
  let ?w1 = "step h (Invoke call) w"
  have i: "world_inv w" using reachable_inv [OF assms(1)] .
  have f: "unlock_free w" using i assms(2) by (simp add: world_inv_def lock_inv_def)
  note h = handle_throws [OF assms(2,3) None]
  have w1: "?w1 = w\<lparr>pending := True, calls := Throws # calls w\<rparr>"
    using h by simp
  have s: "stuck (Throws # calls w) ?w1"
    unfolding w1 using f by (simp add: stuck_def unlock_free_def)
  have i1: "world_inv ?w1" using i by (rule world_inv_step)
  have "stuck (Throws # calls w) (run h ts ?w1)" for ts
    using stuck_run [OF s i1] .
  then show ?thesis
    using h None by (auto simp: stuck_def handle_locked)
qed

theorem throw_locks_forever_witness:
  "fst (handle (AsyncHandler (Literal JUndefined) (Literal JUndefined)) (example_call Throws) (init example_page))
     = Inl Thrown \<and>
   pending (run (AsyncHandler (Literal JUndefined) (Literal JUndefined))
              [Checkpoint, Tick 1000, Invoke (example_call (Returns (Plain JNull))), Checkpoint]
              (step (AsyncHandler (Literal JUndefined) (Literal JUndefined)) (Invoke (example_call Throws))
                 (init example_page))) \<and>
   calls (run (AsyncHandler (Literal JUndefined) (Literal JUndefined))
              [Checkpoint, Tick 1000, Invoke (example_call (Returns (Plain JNull))), Checkpoint]
              (step (AsyncHandler (Literal JUndefined) (Literal JUndefined)) (Invoke (example_call Throws))
                 (init example_page))) = [Throws]"
proof -
  have a: "\<not> pending (init example_page)" and c: "calls (init example_page) = []"
    by (simp_all add: init_def)
  have b: "inv_fct (example_call Throws) = Throws"
    by (simp add: example_call_def)
  have g: "handle_guard_error (AsyncHandler (Literal JUndefined) (Literal JUndefined)) (example_call Throws) = None"
    by (simp add: handle_guard_error_def)
  note t = throw_locks_forever [OF reachable_init a b, of "AsyncHandler (Literal JUndefined) (Literal JUndefined)",
      unfolded g option.case]
  from t have t1: "fst (handle (AsyncHandler (Literal JUndefined) (Literal JUndefined)) (example_call Throws)
      (init example_page)) = Inl Thrown"
    by (rule conjunct1)
  from t have t2: "pending (run (AsyncHandler (Literal JUndefined) (Literal JUndefined)) ts
              (step (AsyncHandler (Literal JUndefined) (Literal JUndefined)) (Invoke (example_call Throws))
                 (init example_page))) \<and>
       calls (run (AsyncHandler (Literal JUndefined) (Literal JUndefined)) ts
              (step (AsyncHandler (Literal JUndefined) (Literal JUndefined)) (Invoke (example_call Throws))
                 (init example_page))) = Throws # calls (init example_page)" for ts
    by blast
  show ?thesis
    using t1 t2 [of "[Checkpoint, Tick 1000, Invoke (example_call (Returns (Plain JNull))), Checkpoint]"]
    by (simp only: c)
qed


subsection \<open>The debounce of the button\<close>

lemma has_class_add_classes:
  "has_class (add_classes e ns w) x c = (has_class w x c \<or> (x = e \<and> classList (elements w e) \<noteq> None \<and> c \<in> set ns))"
  by (auto simp: has_class_def add_classes_def set_classList_add split: option.splits)

lemma has_class_remove_classes:
  "has_class (remove_classes e ns w) x c = (has_class w x c \<and> \<not> (x = e \<and> c \<in> set ns))"
  by (auto simp: has_class_def remove_classes_def classList_remove_def split: option.splits)

lemma has_class_set_disabled [simp]: "has_class (set_disabled e v w) x c = has_class w x c"
  by (simp add: has_class_def set_disabled_def)

lemma has_class_remove_node [simp]: "has_class (remove_node n w) x c = has_class w x c"
  by (simp add: has_class_def remove_node_def)

lemma has_class_prepend [simp]: "has_class (prepend e n w) x c = has_class w x c"
  by (simp add: has_class_def prepend_def remove_node_def Let_def)

lemma has_class_createElement:
  "has_class (snd (createElement w)) x c = (x \<noteq> Created (created w) \<and> has_class w x c)"
  by (simp add: has_class_def createElement_def)

lemma classList_createElement:
  "classList (elements (snd (createElement w)) (Created (created w))) = Some []"
  by (simp add: createElement_def)

lemma has_class_promise_finally [simp]: "has_class (promise_finally r j w) x c = has_class w x c"
  by (simp add: has_class_def promise_finally_def enqueue_def split: rvalue.splits)

lemma has_class_elements: "elements w' = elements w \<Longrightarrow> has_class w' x c = has_class w x c"
  by (simp add: has_class_def)

lemma created_dom [simp]:
  "created (add_classes e ns w) = created w" "created (remove_classes e ns w) = created w"
  "created (set_disabled e v w) = created w"
  by (simp_all add: add_classes_def remove_classes_def set_disabled_def split: option.splits)

lemma pe_none_addButtonLoadingEffect:
  "has_class (snd (addButtonLoadingEffect b w)) x ''pe-none''
     = (x \<noteq> Created (created w) \<and> has_class w x ''pe-none'')"
  by (auto simp: addButtonLoadingEffect_unfold has_class_add_classes has_class_createElement)

lemma pe_none_run_job:
  "has_class (run_job j w) x ''pe-none'' =
     (has_class w x ''pe-none'' \<and>
      (case j of Debounced b r \<Rightarrow> x \<noteq> b \<and> x \<noteq> Created (created w) | _ \<Rightarrow> True))"
proof (cases j)
  case Unlock
  then show ?thesis by (simp add: has_class_def)
next
  case (Debounced b r)
  show ?thesis
    unfolding Debounced run_job_Debounced
    by (auto simp: pe_none_addButtonLoadingEffect has_class_remove_classes)
next
  case (Restore b l)
  then show ?thesis by (simp add: Let_def has_class_remove_classes)
qed

lemma has_class_microtasks [simp]: "has_class (w\<lparr>microtasks := ms\<rparr>) x c = has_class w x c"
  by (simp add: has_class_def)

lemma microtasks_run_job_subset:
  "set (microtasks (run_job j w)) \<subseteq> set (microtasks w) \<union> {Restore b l | b l. True}"
proof (cases j)
  case Unlock
  then show ?thesis by auto
next
  case (Debounced b r)
  show ?thesis
    unfolding Debounced run_job_Debounced
    using microtasks_promise_finally [of r "Restore b (Created (created w))"
        "snd (addButtonLoadingEffect b (remove_classes b [''pe-none''] w))"]
    by auto
next
  case (Restore b l)
  then show ?thesis by (auto simp: Let_def)
qed

lemma microtasks_run_job_superset: "set (microtasks w) \<subseteq> set (microtasks (run_job j w))"
proof (cases j)
  case Unlock
  then show ?thesis by auto
next
  case (Debounced b r)
  show ?thesis
    unfolding Debounced run_job_Debounced
    using microtasks_promise_finally [of r "Restore b (Created (created w))"
        "snd (addButtonLoadingEffect b (remove_classes b [''pe-none''] w))"]
    by auto
next
  case (Restore b l)
  then show ?thesis by (auto simp: Let_def)
qed

lemma drain_no_pe_none: "\<not> has_class w x ''pe-none'' \<Longrightarrow> \<not> has_class (drain w) x ''pe-none''"
proof (induction w rule: drain.induct)
  case (1 w)
  show ?case
  proof (cases "microtasks w")
    case Nil
    then show ?thesis using "1.prems" by (simp add: drain_Nil)
  next
    case (Cons j js)
    have "\<not> has_class (run_job j (w\<lparr>microtasks := js\<rparr>)) x ''pe-none''"
      using "1.prems" by (simp add: pe_none_run_job)
    then show ?thesis using "1.IH" [OF Cons] by (simp add: drain_Cons Cons)
  qed
qed

lemma drain_removes_pe_none:
  "Debounced b r \<in> set (microtasks w) \<Longrightarrow> \<not> has_class (drain w) b ''pe-none''"
proof (induction w rule: drain.induct)
  case (1 w)
  show ?case
  proof (cases "microtasks w")
    case Nil
    then show ?thesis using "1.prems" by simp
  next
    case (Cons j js)
    show ?thesis
    proof (cases "j = Debounced b r")
      case True
      have "\<not> has_class (run_job j (w\<lparr>microtasks := js\<rparr>)) b ''pe-none''"
        by (simp add: True pe_none_run_job)
      then show ?thesis
        using drain_no_pe_none by (simp add: drain_Cons [OF Cons])
    next
      case False
      then have "Debounced b r \<in> set js" using "1.prems" Cons by simp
      then have "Debounced b r \<in> set (microtasks (run_job j (w\<lparr>microtasks := js\<rparr>)))"
        using microtasks_run_job_superset [of "w\<lparr>microtasks := js\<rparr>" j] by auto
      then show ?thesis using "1.IH" [OF Cons] by (simp add: drain_Cons [OF Cons])
    qed
  qed
qed

lemma drain_keeps_pe_none:
  "\<forall>r. Debounced (Doc k) r \<notin> set (microtasks w) \<Longrightarrow> has_class w (Doc k) ''pe-none'' \<Longrightarrow>
   has_class (drain w) (Doc k) ''pe-none''"
proof (induction w rule: drain.induct)
  case (1 w)
  show ?case
  proof (cases "microtasks w")
    case Nil
    then show ?thesis using "1.prems" by (simp add: drain_Nil)
  next
    case (Cons j js)
    have nj: "\<forall>r. j \<noteq> Debounced (Doc k) r" and njs: "\<forall>r. Debounced (Doc k) r \<notin> set js"
      using "1.prems"(1) Cons by auto
    have a: "has_class (run_job j (w\<lparr>microtasks := js\<rparr>)) (Doc k) ''pe-none''"
      using "1.prems"(2) nj by (cases j) (auto simp add: pe_none_run_job simp del: run_job.simps(1,3))
    have b: "\<forall>r. Debounced (Doc k) r \<notin> set (microtasks (run_job j (w\<lparr>microtasks := js\<rparr>)))"
      using njs microtasks_run_job_subset [of j "w\<lparr>microtasks := js\<rparr>"] by auto
    show ?thesis using "1.IH" [OF Cons b a] by (simp add: drain_Cons [OF Cons])
  qed
qed

lemma sched_acquired [simp]: "sched (acquired oc w) = sched w"
  by (cases oc) (simp_all add: acquired_def, simp_all add: sched_def)

lemma has_class_acquired [simp]: "has_class (acquired oc w) x c = has_class w x c"
  by (cases oc) (simp_all add: acquired_def, simp_all add: has_class_def)

lemma sched_debounce: "sched (debounce b r w) = (timers w @ [(now w + DEBOUNCE, Debounced b r)], now w)"
  using sched_add_classes [of b "[''pe-none'']" w] by (simp add: debounce_def sched_def)

lemma has_class_debounce:
  "has_class (debounce b r w) x c = (has_class w x c \<or> (x = b \<and> classList (elements w b) \<noteq> None \<and> c = ''pe-none''))"
  using has_class_add_classes [of b "[''pe-none'']" w x c]
  by (simp add: debounce_def has_class_def)

definition hold :: "nat \<Rightarrow> nat \<Rightarrow> world \<Rightarrow> bool" where
  "hold k T w =
     (T \<le> now w + DEBOUNCE \<and>
      (now w < T \<longrightarrow>
         has_class w (Doc k) ''pe-none'' \<and>
         (\<forall>x\<in>set (timers w). \<forall>r. snd x = Debounced (Doc k) r \<longrightarrow> T \<le> fst x)))"

lemma hold_handle: "hold k T w \<Longrightarrow> hold k T (snd (snd (handle h call w)))"
proof -
  assume a: "hold k T w"
  have async: "hold k T (snd (snd (makeAsyncHandler pd sp call w)))" for pd sp
    using a sched_acquired [of "inv_fct call" w]
    by (simp add: makeAsyncHandler_world hold_def sched_def)
  have deb: "hold k T v \<Longrightarrow> now v = now w \<Longrightarrow> hold k T (debounce b r v)" for v b r
    using a sched_debounce [of b r v]
    by (auto simp: hold_def sched_def has_class_debounce)
  have n: "now (snd (snd (makeAsyncHandler pd sp call w))) = now w" for pd sp
    using sched_acquired [of "inv_fct call" w] by (simp add: makeAsyncHandler_world sched_def)
  show ?thesis
    by (cases h) (simp_all add: handle_def async makeButtonHandler_world deb n split: sum.splits option.splits)
qed

lemma hold_settle: "hold k T w \<Longrightarrow> hold k T (settle p st w)"
  using sched_settle [of p st w]
  by (simp add: hold_def sched_def has_class_def settle_def)

lemma hold_drain:
  "hold k T w \<Longrightarrow> \<forall>r. Debounced (Doc k) r \<notin> set (microtasks w) \<Longrightarrow> hold k T (drain w)"
  using sched_drain [of w] drain_keeps_pe_none [of k w]
  by (simp add: hold_def sched_def)

lemma hold_fire: "hold k T w \<Longrightarrow> quiet w \<Longrightarrow> hold k T (fire i w)"
proof (cases "i < length (timers w) \<and> fst (timers w ! i) \<le> now w")
  case False
  assume "hold k T w"
  then show ?thesis using False by (auto simp: fire_def)
next
  case True
  assume a: "hold k T w" and q: "quiet w"
  let ?w0 = "w\<lparr>timers := take i (timers w) @ drop (Suc i) (timers w)\<rparr>"
  let ?w1 = "enqueue (snd (timers w ! i)) ?w0"
  have f: "fire i w = drain ?w1" using True by (simp add: fire_def)
  have sub: "set (take i (timers w) @ drop (Suc i) (timers w)) \<subseteq> set (timers w)"
    using set_take_subset [of i "timers w"] set_drop_subset [of "Suc i" "timers w"] by auto
  have h1: "hold k T ?w1"
    using a sub by (auto simp: hold_def enqueue_def has_class_def)
  show ?thesis
  proof (cases "now w < T")
    case False
    then show ?thesis
      using a sched_drain [of ?w1] unfolding f by (simp add: hold_def sched_def enqueue_def)
  next
    case lt: True
    have mem: "timers w ! i \<in> set (timers w)" using True by simp
    have "\<forall>r. snd (timers w ! i) \<noteq> Debounced (Doc k) r"
    proof (intro allI notI)
      fix r assume "snd (timers w ! i) = Debounced (Doc k) r"
      then have "T \<le> fst (timers w ! i)" using a lt mem by (simp add: hold_def)
      then show False using True lt by simp
    qed
    moreover have "\<forall>r. Debounced (Doc k) r \<notin> set (microtasks w)"
      using q by (auto simp: quiet_def)
    ultimately have "\<forall>r. Debounced (Doc k) r \<notin> set (microtasks ?w1)"
      by (simp add: enqueue_def) metis
    then show ?thesis unfolding f using h1 by (simp add: hold_drain)
  qed
qed

lemma hold_step: "world_inv w \<Longrightarrow> hold k T w \<Longrightarrow> hold k T (step h t w)"
proof (cases t)
  case (Tick n)
  assume "hold k T w"
  then show ?thesis by (auto simp: Tick hold_def has_class_def)
next
  case Checkpoint
  assume i: "world_inv w" and a: "hold k T w"
  have "\<forall>r. Debounced (Doc k) r \<notin> set (microtasks w)"
    using i by (auto simp: world_inv_def quiet_def)
  then show ?thesis using a by (simp add: Checkpoint hold_drain)
qed (simp_all add: hold_handle hold_settle hold_fire world_inv_def)

lemma hold_run: "world_inv w \<Longrightarrow> hold k T w \<Longrightarrow> hold k T (run h ts w)"
proof (induction ts arbitrary: w)
  case Nil
  then show ?case by (simp add: run_def)
next
  case (Cons t ts)
  have "hold k T (run h ts (step h t w))"
    using Cons.prems by (intro Cons.IH) (simp_all add: world_inv_step hold_step)
  then show ?case by (simp add: run_def)
qed

lemma fire_removes_pe_none:
  assumes "i < length (timers w)" and "timers w ! i = (due, Debounced b r)" and "due \<le> now w"
  shows "\<not> has_class (fire i w) b ''pe-none''"
proof -
  have "fire i w = drain (enqueue (Debounced b r) (w\<lparr>timers := take i (timers w) @ drop (Suc i) (timers w)\<rparr>))"
    using assms by (simp add: fire_def)
  then show ?thesis
    using drain_removes_pe_none [of b r "enqueue (Debounced b r) (w\<lparr>timers := take i (timers w) @ drop (Suc i) (timers w)\<rparr>)"]
    by (simp add: enqueue_def)
qed


text \<open>
  Claim C3, amended. Take a call of the handler returned by \<open>makeButtonHandler\<close> whose
  event target lies in an element with class \<open>btn\<close> (so the element has a class list),
  in which the guarded call of \<open>fct\<close> returns or is skipped. The handler adds the class
  \<open>pe-none\<close> to the button at once and sets a timer due \<open>DEBOUNCE\<close> = 400
  milliseconds later. If no debounce timer set earlier for that button is still
  outstanding, the class stays on the button for those 400 milliseconds, whatever else
  happens: other calls, the action settling, checkpoints, other timers. And whenever a
  debounce timer of the button fires, the class is gone after it, whether the action has
  finished or not.
\<close>

theorem makeButtonHandler_debounce:
  assumes "reachable ButtonHandler w"
    and "target (inv_event call) = Closest (Some k)"
    and "classList (elements w (Doc k)) = Some cs"
    and "pending w \<or> inv_fct call \<noteq> Throws"
  shows "DEBOUNCE = 400 \<and>
         (\<exists>r. fst (makeButtonHandler call w) = Inr r \<and>
              timers (step ButtonHandler (Invoke call) w)
                = timers w @ [(now w + DEBOUNCE, Debounced (Doc k) r)]) \<and>
         has_class (step ButtonHandler (Invoke call) w) (Doc k) ''pe-none'' \<and>
         ((\<forall>x\<in>set (timers w). \<forall>r. snd x \<noteq> Debounced (Doc k) r) \<longrightarrow>
            (\<forall>ts. now (run ButtonHandler ts (step ButtonHandler (Invoke call) w)) < now w + DEBOUNCE \<longrightarrow>
                  has_class (run ButtonHandler ts (step ButtonHandler (Invoke call) w)) (Doc k) ''pe-none'')) \<and>
         (\<forall>v i due r. i < length (timers v) \<and> timers v ! i = (due, Debounced (Doc k) r) \<and> due \<le> now v \<longrightarrow>
            \<not> has_class (step ButtonHandler (Timeout i) v) (Doc k) ''pe-none'')"
proof -
  let ?w1 = "snd (snd (makeAsyncHandler (Literal JUndefined) (Literal JUndefined) call w))"
  let ?w2 = "step ButtonHandler (Invoke call) w"
  have cb: "closest_btn (inv_event call) = Some (Doc k)"
    using assms(2) by (simp add: closest_btn_def)
  have "\<exists>r. fst (makeAsyncHandler (Literal JUndefined) (Literal JUndefined) call w) = Inr r"
    using assms(4) by (cases "inv_fct call"; cases "pending w") (simp_all add: makeAsyncHandler_result)
  then obtain r where r: "fst (makeAsyncHandler (Literal JUndefined) (Literal JUndefined) call w) = Inr r"
    by blast
  have w2: "?w2 = debounce (Doc k) r ?w1"
    by (simp add: handle_def makeButtonHandler_world r cb)
  have s1: "sched ?w1 = sched w"
    by (simp add: makeAsyncHandler_world)
  have e1: "classList (elements ?w1 (Doc k)) = Some cs"
    using assms(3) has_class_acquired [of "inv_fct call" w]
    by (cases "inv_fct call")
       (auto simp: makeAsyncHandler_world acquired_def promise_finally_def enqueue_def split: rvalue.splits)
  have t2: "timers ?w2 = timers w @ [(now w + DEBOUNCE, Debounced (Doc k) r)]" and n2: "now ?w2 = now w"
    using sched_debounce [of "Doc k" r ?w1] s1 unfolding w2 by (simp_all add: sched_def)
  have c2: "has_class ?w2 (Doc k) ''pe-none''"
    unfolding w2 using e1 by (simp add: has_class_debounce)
  have i2: "world_inv ?w2"
    using reachable_inv [OF assms(1)] by (rule world_inv_step)
  have stays: "has_class (run ButtonHandler ts ?w2) (Doc k) ''pe-none''"
    if old: "\<forall>x\<in>set (timers w). \<forall>r. snd x \<noteq> Debounced (Doc k) r"
      and lt: "now (run ButtonHandler ts ?w2) < now w + DEBOUNCE" for ts
  proof -
    have "hold k (now w + DEBOUNCE) ?w2"
      unfolding hold_def t2 n2 using old c2 by auto
    then have "hold k (now w + DEBOUNCE) (run ButtonHandler ts ?w2)"
      using i2 by (simp add: hold_run)
    then show ?thesis using lt by (simp add: hold_def)
  qed
  have fires: "\<not> has_class (step ButtonHandler (Timeout i) v) (Doc k) ''pe-none''"
    if "i < length (timers v)" "timers v ! i = (due, Debounced (Doc k) r')" "due \<le> now v" for v i due r'
    using fire_removes_pe_none [OF that] by simp
  have res: "fst (makeButtonHandler call w) = Inr r"
    by (simp add: makeButtonHandler_result r)
  show ?thesis
    using res t2 c2 stays fires by (simp add: DEBOUNCE_def)
qed

text \<open>The equations that evaluate a run on a concrete page.\<close>

lemmas eval_world =
  run_def handle_def makeButtonHandler_world makeAsyncHandler_world makeAsyncHandler_result
  makeButtonHandler_result acquired_def debounce_def add_classes_def remove_classes_def closest_btn_def
  fire_def enqueue_def settle_def example_call_def promise_finally_def init_def example_page_def
  DEBOUNCE_def classList_add_def classList_remove_def has_class_def drain_Nil drain_Cons
  run_job_Debounced addButtonLoadingEffect_unfold set_disabled_def createElement_def prepend_def
  remove_node_def Let_def

text \<open>
  Claim C3, as stated (after every such call the class stays until the 400 milliseconds
  of that call's own timer have passed), fails when the handler is called again while an
  earlier debounce is running. A click at time 0 starts a long action; a second click at
  time 100, by the keyboard say, finds the handler locked, but still adds the class and
  sets its own timer, due at 500. When the first timer fires at 400 the class is removed:
  300 milliseconds after the second click, with that click's timer still to come.
\<close>

theorem second_click_reenabled_early:
  "has_class (run ButtonHandler
               [Invoke (example_call (Returns (PromiseRef 7))), Checkpoint, Tick 100,
                Invoke (example_call (Returns (Plain JNull))), Checkpoint]
               (init example_page)) (Doc 0) ''pe-none'' \<and>
   \<not> has_class (run ButtonHandler
               [Invoke (example_call (Returns (PromiseRef 7))), Checkpoint, Tick 100,
                Invoke (example_call (Returns (Plain JNull))), Checkpoint, Tick 300, Timeout 0]
               (init example_page)) (Doc 0) ''pe-none'' \<and>
   now (run ButtonHandler
               [Invoke (example_call (Returns (PromiseRef 7))), Checkpoint, Tick 100,
                Invoke (example_call (Returns (Plain JNull))), Checkpoint, Tick 300, Timeout 0]
               (init example_page)) = 400 \<and>
   timers (run ButtonHandler
               [Invoke (example_call (Returns (PromiseRef 7))), Checkpoint, Tick 100,
                Invoke (example_call (Returns (Plain JNull))), Checkpoint, Tick 300, Timeout 0]
               (init example_page)) = [(500, Debounced (Doc 0) (Plain JUndefined))]"
  by (simp add: eval_world)

theorem makeButtonHandler_debounce_witness:
  "has_class (step ButtonHandler (Invoke (example_call (Returns (PromiseRef 7)))) (init example_page))
     (Doc 0) ''pe-none'' \<and>
   timers (step ButtonHandler (Invoke (example_call (Returns (PromiseRef 7)))) (init example_page))
     = [(400, Debounced (Doc 0) (PromiseRef 7))] \<and>
   has_class (run ButtonHandler [Checkpoint, Tick 399, Settle 7 False, Checkpoint]
                (step ButtonHandler (Invoke (example_call (Returns (PromiseRef 7)))) (init example_page)))
     (Doc 0) ''pe-none'' \<and>
   \<not> has_class (step ButtonHandler (Timeout 0)
                  (run ButtonHandler [Checkpoint, Tick 400]
                     (step ButtonHandler (Invoke (example_call (Returns (PromiseRef 7)))) (init example_page))))
     (Doc 0) ''pe-none''"
proof -
  let ?c = "example_call (Returns (PromiseRef 7))"
  let ?w1 = "step ButtonHandler (Invoke ?c) (init example_page)"
  have h2: "target (inv_event ?c) = Closest (Some 0)"
    by (simp add: example_call_def)
  have h3: "classList (elements (init example_page) (Doc 0)) = Some [''btn'', ''btn-primary'']"
    by (simp add: init_def example_page_def)
  have h4: "pending (init example_page) \<or> inv_fct ?c \<noteq> Throws"
    by (simp add: example_call_def)
  note t = makeButtonHandler_debounce [OF reachable_init h2 h3 h4]
  have r: "fst (makeButtonHandler ?c (init example_page)) = Inr (PromiseRef 7)"
    by (simp add: eval_world)
  have n0: "now (init example_page) = 0" and t0: "timers (init example_page) = []"
    by (simp_all add: init_def)
  from t r have a: "timers ?w1 = [(400, Debounced (Doc 0) (PromiseRef 7))]"
    by (simp add: n0 t0 del: step.simps)
  from t have b: "has_class ?w1 (Doc 0) ''pe-none''"
    by (simp del: step.simps)
  have lt: "now (run ButtonHandler [Checkpoint, Tick 399, Settle 7 False, Checkpoint] ?w1) < 0 + DEBOUNCE"
    by (simp add: eval_world)
  from t have "\<forall>ts. now (run ButtonHandler ts ?w1) < 0 + DEBOUNCE \<longrightarrow> has_class (run ButtonHandler ts ?w1) (Doc 0) ''pe-none''"
    by (simp add: n0 t0 del: step.simps)
  then have c: "has_class (run ButtonHandler [Checkpoint, Tick 399, Settle 7 False, Checkpoint] ?w1) (Doc 0) ''pe-none''"
    using lt by blast
  let ?v = "run ButtonHandler [Checkpoint, Tick 400] ?w1"
  have v: "0 < length (timers ?v) \<and> timers ?v ! 0 = (400, Debounced (Doc 0) (PromiseRef 7)) \<and> 400 \<le> now ?v"
    by (simp add: eval_world)
  from t have "\<forall>v i due r. i < length (timers v) \<and> timers v ! i = (due, Debounced (Doc 0) r) \<and> due \<le> now v \<longrightarrow>
            \<not> has_class (step ButtonHandler (Timeout i) v) (Doc 0) ''pe-none''"
    by (simp del: step.simps)
  then have d: "\<not> has_class (step ButtonHandler (Timeout 0) ?v) (Doc 0) ''pe-none''"
    using v by blast
  show ?thesis using a b c d by blast
qed


end
